theory Spec2Isabelle
  imports Complex_Main "HOL-Library.Multiset"
begin

section \<open>Scramblr: the two-phase image renamer\<close>

text \<open>
  A shallow embedding of \<^verbatim>\<open>Scramblr.py\<close>: the worker \<^verbatim>\<open>RandomizerWorker.run\<close>, the
  enumeration \<^verbatim>\<open>ImageRandomizer.get_image_files\<close> and the validation of
  \<^verbatim>\<open>ImageRandomizer.process_folder\<close>.

  Python strings are \<open>string\<close> (the bytes of their UTF-8 form: the separators, the dot
  and the digits the code looks at are ASCII, so cutting at them is the same on bytes
  and on code points). Python's unbounded integers are \<open>nat\<close> or \<open>int\<close>. A Python
  \<^verbatim>\<open>float\<close> is the rational it denotes, and every float operation rounds its exact
  result to 53 significant bits, ties to even (the exponent range of a double is not
  modelled: the quotients of \<^verbatim>\<open>run\<close> lie between \<open>1 / len\<close> of a list and \<open>1\<close>).
  An exception is the string \<^verbatim>\<open>str(e)\<close> that the handler of \<^verbatim>\<open>run\<close> reads from it.
  The operating system (\<^verbatim>\<open>os.rename\<close>, \<^verbatim>\<open>os.listdir\<close>, \<^verbatim>\<open>os.path.isfile\<close>), the
  random sources (\<^verbatim>\<open>random.shuffle\<close>, \<^verbatim>\<open>uuid.uuid4\<close>) and the clock are parameters.
  \<^verbatim>\<open>os.path\<close> is \<^verbatim>\<open>posixpath\<close>.
\<close>

subsection \<open>Strings and integer formatting\<close>

type_synonym exn = string

definition digit_char :: "nat \<Rightarrow> char" where
  "digit_char d = char_of (48 + d)"

text \<open>\<^verbatim>\<open>str(n)\<close> for a non-negative integer: its decimal digits.\<close>

fun str_nat :: "nat \<Rightarrow> string" where
  "str_nat n = (if n < 10 then [digit_char n] else str_nat (n div 10) @ [digit_char (n mod 10)])"

declare str_nat.simps [simp del]

text \<open>The format specification \<^verbatim>\<open>{i:03d}\<close>: the digits, filled with zeros on the left up
  to a width of three.\<close>

definition format_03d :: "nat \<Rightarrow> string" where
  "format_03d i = (let s = str_nat i in replicate (3 - length s) (CHR ''0'') @ s)"

text \<open>\<^verbatim>\<open>str.lower\<close> on the ASCII letters.\<close>

definition lower_char :: "char \<Rightarrow> char" where
  "lower_char c = (let n = (of_char c :: nat) in if 65 \<le> n \<and> n \<le> 90 then char_of (n + 32) else c)"

definition lower :: "string \<Rightarrow> string" where
  "lower s = map lower_char s"

subsection \<open>Paths (posixpath)\<close>

text \<open>\<^verbatim>\<open>p.rfind(c)\<close>: the last index of \<open>c\<close> in \<open>p\<close>, or \<open>-1\<close>.\<close>

definition rfind :: "string \<Rightarrow> char \<Rightarrow> int" where
  "rfind p c = (case filter (\<lambda>k. p ! k = c) (rev [0..<length p]) of [] \<Rightarrow> - 1 | k # _ \<Rightarrow> int k)"

text \<open>
  \<^verbatim>\<open>os.path.splitext\<close> (\<^verbatim>\<open>genericpath._splitext\<close> with \<open>sep = '/'\<close>, no \<open>altsep\<close>,
  \<open>extsep = '.'\<close>): the extension starts at the last dot, when that dot comes after the
  last separator and some character between them is not a dot.
\<close>

definition splitext :: "string \<Rightarrow> string \<times> string" where
  "splitext p =
     (let sepIndex = rfind p (CHR ''/'');
          dotIndex = rfind p (CHR ''.'')
      in if sepIndex < dotIndex \<and>
            list_ex (\<lambda>ch. ch \<noteq> CHR ''.'') (drop (nat (sepIndex + 1)) (take (nat dotIndex) p))
         then (take (nat dotIndex) p, drop (nat dotIndex) p)
         else (p, []))"

text \<open>\<^verbatim>\<open>os.path.join(a, b)\<close> with two arguments.\<close>

definition os_path_join :: "string \<Rightarrow> string \<Rightarrow> string" where
  "os_path_join a b =
     (if b \<noteq> [] \<and> hd b = CHR ''/'' then b
      else if a = [] \<or> last a = CHR ''/'' then a @ b
      else a @ ''/'' @ b)"

subsection \<open>Floats\<close>

text \<open>\<^verbatim>\<open>int.bit_length\<close>.\<close>

function bit_length :: "int \<Rightarrow> nat" where
  "bit_length n = (if n \<le> 0 then 0 else Suc (bit_length (n div 2)))"
  by pat_completeness auto
termination
  by (relation "measure nat") auto

declare bit_length.simps [simp del]

text \<open>The binary exponent of a positive rational: \<open>2 powi ilog2 x \<le> x < 2 powi (ilog2 x + 1)\<close>.\<close>

definition ilog2 :: "rat \<Rightarrow> int" where
  "ilog2 x =
     (let (p, q) = quotient_of x;
          k = int (bit_length p) - int (bit_length q)
      in if 2 powi k \<le> x then k else k - 1)"

definition round_half_even :: "rat \<Rightarrow> int" where
  "round_half_even y =
     (let f = \<lfloor>y\<rfloor>; d = y - of_int f
      in if d < 1 / 2 then f else if 1 / 2 < d then f + 1 else if even f then f else f + 1)"

text \<open>Rounding to the nearest number with a significand of 53 bits, ties to even.\<close>

definition float_round :: "rat \<Rightarrow> rat" where
  "float_round x =
     (if x = 0 then 0
      else let u = 2 powi (ilog2 \<bar>x\<bar> - 52)
           in sgn x * of_int (round_half_even (\<bar>x\<bar> / u)) * u)"

text \<open>\<^verbatim>\<open>a / b\<close> on integers (true division, correctly rounded), \<^verbatim>\<open>x * y\<close> and \<^verbatim>\<open>x - y\<close> on
  floats, and \<^verbatim>\<open>int(x)\<close>, which truncates towards zero.\<close>

definition py_truediv :: "int \<Rightarrow> int \<Rightarrow> exn + rat" where
  "py_truediv a b =
     (if b = 0 then Inl ''division by zero'' else Inr (float_round (of_int a / of_int b)))"

definition float_mul :: "rat \<Rightarrow> rat \<Rightarrow> rat" where
  "float_mul x y = float_round (x * y)"

definition float_sub :: "rat \<Rightarrow> rat \<Rightarrow> rat" where
  "float_sub x y = float_round (x - y)"

definition py_int :: "rat \<Rightarrow> int" where
  "py_int x = (if 0 \<le> x then \<lfloor>x\<rfloor> else \<lceil>x\<rceil>)"

text \<open>The expression \<^verbatim>\<open>int(k / total_files * 50)\<close> of both loops.\<close>

definition half_percent :: "nat \<Rightarrow> nat \<Rightarrow> exn + int" where
  "half_percent k total_files =
     (case py_truediv (int k) (int total_files) of
        Inl e \<Rightarrow> Inl e
      | Inr q \<Rightarrow> Inr (py_int (float_mul q 50)))"

subsection \<open>Dictionaries\<close>

text \<open>A \<^verbatim>\<open>dict\<close> keeps its keys in insertion order: \<^verbatim>\<open>d[k] = v\<close> replaces the value of a
  key that is present, where it stands, and appends a new key.\<close>

fun setitem :: "('k \<times> 'v) list \<Rightarrow> 'k \<Rightarrow> 'v \<Rightarrow> ('k \<times> 'v) list" where
  "setitem [] k v = [(k, v)]"
| "setitem ((k', v') # d) k v = (if k' = k then (k', v) # d else (k', v') # setitem d k v)"

subsection \<open>The worker\<close>

text \<open>The three signals of \<^verbatim>\<open>RandomizerWorker\<close>.\<close>

datatype event =
    Progress_update int string
  | Finished "(string \<times> string) list" rat
  | Error exn

text \<open>
  What \<^verbatim>\<open>run\<close> takes from outside: \<open>os_rename fs src dst\<close> is the file system after the
  rename, or the exception it raises; \<open>uuid4 k\<close> is \<^verbatim>\<open>str(uuid.uuid4())\<close> of the call number
  \<open>k\<close>; \<open>random_shuffle\<close> is the order \<^verbatim>\<open>random.shuffle\<close> leaves the list in;
  \<open>time_time k\<close> is the clock at its reading number \<open>k\<close>.
\<close>

record 'fs env =
  os_rename :: "'fs \<Rightarrow> string \<Rightarrow> string \<Rightarrow> exn + 'fs"
  uuid4 :: "nat \<Rightarrow> string"
  random_shuffle :: "string list \<Rightarrow> string list"
  time_time :: "nat \<Rightarrow> rat"

text \<open>The file system and the signals emitted so far, oldest first.\<close>

record 'fs world =
  disk :: 'fs
  signals :: "event list"

definition emit :: "event \<Rightarrow> 'fs world \<Rightarrow> 'fs world" where
  "emit ev w = w\<lparr>signals := signals w @ [ev]\<rparr>"

text \<open>The loop of phase 1, at index \<open>i\<close> of \<^verbatim>\<open>enumerate(self.image_files)\<close>.\<close>

fun phase1 ::
  "'fs env \<Rightarrow> string \<Rightarrow> nat \<Rightarrow> nat \<Rightarrow> string list \<Rightarrow> (string \<times> string) list \<Rightarrow> 'fs world
    \<Rightarrow> (exn + (string \<times> string) list) \<times> 'fs world" where
  "phase1 E folder_path total_files i [] temp_names w = (Inr temp_names, w)"
| "phase1 E folder_path total_files i (filename # rest) temp_names w =
     (let old_path = os_path_join folder_path filename;
          temp_name = ''temp_'' @ uuid4 E i @ snd (splitext filename);
          temp_path = os_path_join folder_path temp_name
      in case os_rename E (disk w) old_path temp_path of
           Inl e \<Rightarrow> (Inl e, w)
         | Inr fs \<Rightarrow>
             (let w1 = w\<lparr>disk := fs\<rparr>;
                  temp_names1 = setitem temp_names filename temp_name
              in case half_percent (i + 1) total_files of
                   Inl e \<Rightarrow> (Inl e, w1)
                 | Inr progress \<Rightarrow>
                     phase1 E folder_path total_files (i + 1) rest temp_names1
                       (emit (Progress_update progress
                          (''Phase 1/2: Preparing file '' @ str_nat (i + 1) @ ''/'' @
                             str_nat total_files)) w1)))"

text \<open>The loop of phase 2, at index \<open>i\<close> of \<^verbatim>\<open>enumerate(temp_items, 1)\<close>.\<close>

fun phase2 ::
  "'fs env \<Rightarrow> string \<Rightarrow> string \<Rightarrow> nat \<Rightarrow> nat \<Rightarrow> (string \<times> string) list
    \<Rightarrow> (string \<times> string) list \<Rightarrow> 'fs world
    \<Rightarrow> (exn + (string \<times> string) list) \<times> 'fs world" where
  "phase2 E folder_path new_prefix total_files i [] final_names w = (Inr final_names, w)"
| "phase2 E folder_path new_prefix total_files i ((original_name, temp_name) # rest) final_names w =
     (let temp_path = os_path_join folder_path temp_name;
          extension = snd (splitext original_name);
          new_name = new_prefix @ format_03d i @ extension;
          new_path = os_path_join folder_path new_name
      in case os_rename E (disk w) temp_path new_path of
           Inl e \<Rightarrow> (Inl e, w)
         | Inr fs \<Rightarrow>
             (let w1 = w\<lparr>disk := fs\<rparr>;
                  final_names1 = setitem final_names original_name new_name
              in case half_percent i total_files of
                   Inl e \<Rightarrow> (Inl e, w1)
                 | Inr p \<Rightarrow>
                     phase2 E folder_path new_prefix total_files (i + 1) rest final_names1
                       (emit (Progress_update (50 + p)
                          (''Phase 2/2: Renaming file '' @ str_nat i @ ''/'' @
                             str_nat total_files)) w1)))"

text \<open>The body of the \<^verbatim>\<open>try\<close> block: the exception that leaves it, if any, and the world
  at that moment.\<close>

definition run_body ::
  "'fs env \<Rightarrow> string \<Rightarrow> string list \<Rightarrow> string \<Rightarrow> 'fs world \<Rightarrow> (exn + unit) \<times> 'fs world" where
  "run_body E folder_path image_files new_prefix w =
     (let start_time = time_time E 0;
          shuffled = random_shuffle E image_files;
          total_files = length shuffled;
          w1 = emit (Progress_update 0 ''Phase 1/2: Preparing files...'') w
      in case phase1 E folder_path total_files 0 shuffled [] w1 of
           (Inl e, w2) \<Rightarrow> (Inl e, w2)
         | (Inr temp_names, w2) \<Rightarrow>
             (let w3 = emit (Progress_update 50 ''Phase 2/2: Finalizing names...'') w2;
                  temp_items = temp_names
              in case phase2 E folder_path new_prefix total_files 1 temp_items [] w3 of
                   (Inl e, w4) \<Rightarrow> (Inl e, w4)
                 | (Inr final_names, w4) \<Rightarrow>
                     (let duration = float_sub (time_time E 1) start_time
                      in (Inr (), emit (Finished final_names duration) w4))))"

text \<open>\<^verbatim>\<open>RandomizerWorker.run\<close>: the \<^verbatim>\<open>try\<close> block and its handler
  \<^verbatim>\<open>except Exception as e: self.error.emit(str(e))\<close>, from a file system \<open>fs\<close> and no
  signal emitted yet.\<close>

definition run :: "'fs env \<Rightarrow> string \<Rightarrow> string list \<Rightarrow> string \<Rightarrow> 'fs \<Rightarrow> 'fs world" where
  "run E folder_path image_files new_prefix fs =
     (case run_body E folder_path image_files new_prefix \<lparr>disk = fs, signals = []\<rparr> of
        (Inl e, w) \<Rightarrow> emit (Error e) w
      | (Inr _, w) \<Rightarrow> w)"

subsection \<open>The controller\<close>

definition image_extensions :: "string list" where
  "image_extensions = [''.jpg'', ''.jpeg'', ''.png'', ''.gif'', ''.bmp'', ''.tiff'', ''.webp'']"

text \<open>\<^verbatim>\<open>get_image_files\<close>: \<open>os_listdir\<close> gives the entries of a directory or raises,
  \<open>os_path_isfile\<close> tells whether a path is a regular file.\<close>

definition get_image_files ::
  "(string \<Rightarrow> exn + string list) \<Rightarrow> (string \<Rightarrow> bool) \<Rightarrow> string \<Rightarrow> exn + string list" where
  "get_image_files os_listdir os_path_isfile folder_path =
     (case os_listdir folder_path of
        Inl e \<Rightarrow> Inl e
      | Inr entries \<Rightarrow>
          Inr [f \<leftarrow> entries. os_path_isfile (os_path_join folder_path f) \<and>
                 lower (snd (splitext f)) \<in> set image_extensions])"

text \<open>The Python expression \<^verbatim>\<open>a or b\<close> on strings: \<open>a\<close> unless it is empty.\<close>

definition py_or :: "string \<Rightarrow> string \<Rightarrow> string" where
  "py_or a b = (if a = [] then b else a)"

text \<open>
  \<^verbatim>\<open>process_folder\<close> up to the start of the worker: what it shows or starts, from the
  text of the two line edits and the answer to the confirmation dialog. \<open>Started\<close>
  carries the arguments of \<^verbatim>\<open>RandomizerWorker\<close>.
\<close>

datatype launch =
    Invalid_Folder
  | No_Images
  | Cancelled
  | Raised exn
  | Started string "string list" string

definition process_folder ::
  "(string \<Rightarrow> bool) \<Rightarrow> (string \<Rightarrow> exn + string list) \<Rightarrow> (string \<Rightarrow> bool)
    \<Rightarrow> string \<Rightarrow> string \<Rightarrow> bool \<Rightarrow> launch" where
  "process_folder os_path_isdir os_listdir os_path_isfile path_text prefix_text reply_yes =
     (let folder_path = path_text
      in if \<not> os_path_isdir folder_path then Invalid_Folder
         else case get_image_files os_listdir os_path_isfile folder_path of
                Inl e \<Rightarrow> Raised e
              | Inr image_files \<Rightarrow>
                  if image_files = [] then No_Images
                  else if reply_yes
                       then (let new_prefix = py_or prefix_text ''image_''
                             in Started folder_path image_files new_prefix)
                       else Cancelled)"

subsection \<open>Reading the signals of a run\<close>

text \<open>The percentages of the progress signals, in the order of emission.\<close>

fun percentages :: "event list \<Rightarrow> int list" where
  "percentages [] = []"
| "percentages (Progress_update p m # evs) = p # percentages evs"
| "percentages (_ # evs) = percentages evs"

fun is_terminal :: "event \<Rightarrow> bool" where
  "is_terminal (Progress_update p m) = False"
| "is_terminal (Finished r d) = True"
| "is_terminal (Error e) = True"



text \<open>The mapping carried by the success signal that ends a list of signals, if it ends
  with one.\<close>

definition rename_result :: "event list \<Rightarrow> (string \<times> string) list option" where
  "rename_result evs =
     (if evs = [] then None
      else case last evs of Finished r d \<Rightarrow> Some r | _ \<Rightarrow> None)"

subsection \<open>The renames of a run, as a plan\<close>

text \<open>
  What the two loops ask of the file system, written without the loops: the pairs
  \<open>(source, destination)\<close> in the order of the calls, and an executor that stops at the
  first call that raises. It returns the file system it stopped with, the number of
  renames done, and the exception.
\<close>

fun rename_all ::
  "('fs \<Rightarrow> string \<Rightarrow> string \<Rightarrow> exn + 'fs) \<Rightarrow> 'fs \<Rightarrow> (string \<times> string) list
    \<Rightarrow> 'fs \<times> nat \<times> exn option" where
  "rename_all r fs [] = (fs, 0, None)"
| "rename_all r fs ((src, dst) # ps) =
     (case r fs src dst of
        Inl e \<Rightarrow> (fs, 0, Some e)
      | Inr fs' \<Rightarrow> (case rename_all r fs' ps of (fs'', k, eo) \<Rightarrow> (fs'', Suc k, eo)))"

definition temp_name :: "'fs env \<Rightarrow> nat \<Rightarrow> string \<Rightarrow> string" where
  "temp_name E i filename = ''temp_'' @ uuid4 E i @ snd (splitext filename)"

definition final_name :: "string \<Rightarrow> nat \<Rightarrow> string \<Rightarrow> string" where
  "final_name new_prefix i original_name = new_prefix @ format_03d i @ snd (splitext original_name)"

fun phase1_renames :: "'fs env \<Rightarrow> string \<Rightarrow> nat \<Rightarrow> string list \<Rightarrow> (string \<times> string) list" where
  "phase1_renames E folder_path i [] = []"
| "phase1_renames E folder_path i (f # fs) =
     (os_path_join folder_path f, os_path_join folder_path (temp_name E i f)) #
       phase1_renames E folder_path (i + 1) fs"

fun phase1_names ::
  "'fs env \<Rightarrow> nat \<Rightarrow> string list \<Rightarrow> (string \<times> string) list \<Rightarrow> (string \<times> string) list" where
  "phase1_names E i [] d = d"
| "phase1_names E i (f # fs) d = phase1_names E (i + 1) fs (setitem d f (temp_name E i f))"

fun phase2_renames ::
  "string \<Rightarrow> string \<Rightarrow> nat \<Rightarrow> (string \<times> string) list \<Rightarrow> (string \<times> string) list" where
  "phase2_renames folder_path new_prefix i [] = []"
| "phase2_renames folder_path new_prefix i ((original_name, tmp) # items) =
     (os_path_join folder_path tmp, os_path_join folder_path (final_name new_prefix i original_name)) #
       phase2_renames folder_path new_prefix (i + 1) items"

fun phase2_names ::
  "string \<Rightarrow> nat \<Rightarrow> (string \<times> string) list \<Rightarrow> (string \<times> string) list
    \<Rightarrow> (string \<times> string) list" where
  "phase2_names new_prefix i [] d = d"
| "phase2_names new_prefix i ((original_name, tmp) # items) d =
     phase2_names new_prefix (i + 1) items (setitem d original_name (final_name new_prefix i original_name))"

text \<open>The percentage \<^verbatim>\<open>int(k / total_files * 50)\<close> where the division does not raise.\<close>

definition pct :: "nat \<Rightarrow> nat \<Rightarrow> int" where
  "pct k total_files = py_int (float_mul (float_round (of_int (int k) / of_int (int total_files))) 50)"

definition phase1_events :: "nat \<Rightarrow> nat \<Rightarrow> nat \<Rightarrow> event list" where
  "phase1_events total_files i n =
     map (\<lambda>j. Progress_update (pct (j + 1) total_files)
           (''Phase 1/2: Preparing file '' @ str_nat (j + 1) @ ''/'' @ str_nat total_files))
       [i..<i + n]"

definition phase2_events :: "nat \<Rightarrow> nat \<Rightarrow> nat \<Rightarrow> event list" where
  "phase2_events total_files i n =
     map (\<lambda>j. Progress_update (50 + pct j total_files)
           (''Phase 2/2: Renaming file '' @ str_nat j @ ''/'' @ str_nat total_files))
       [i..<i + n]"

subsection \<open>A small file system\<close>

text \<open>
  A directory as a map from paths to what they name, with a rename in the manner of
  POSIX: it raises when the source is missing or when the destination is a folder, and
  it replaces a file at the destination. It serves as an example of \<open>os_rename\<close>.
\<close>

datatype node = File nat | Folder

definition example_rename ::
  "(string \<Rightarrow> node option) \<Rightarrow> string \<Rightarrow> string \<Rightarrow> exn + (string \<Rightarrow> node option)" where
  "example_rename fs src dst =
     (case fs src of
        None \<Rightarrow> Inl ''[Errno 2] No such file or directory''
      | Some n \<Rightarrow>
          if fs dst = Some Folder then Inl ''[Errno 21] Is a directory''
          else Inr ((fs(src := None))(dst := Some n)))"

definition example_env :: "(string \<Rightarrow> node option) env" where
  "example_env =
     \<lparr>os_rename = example_rename,
      uuid4 = (\<lambda>k. ''uuid'' @ str_nat k),
      random_shuffle = rev,
      time_time = (\<lambda>k. of_nat k)\<rparr>"

definition example_files :: "string list" where
  "example_files = [''a.png'', ''b.jpg'', ''c.gif'']"

definition example_disk :: "string \<Rightarrow> node option" where
  "example_disk =
     ((Map.empty(''/d/a.png'' := Some (File 1)))(''/d/b.jpg'' := Some (File 2)))
       (''/d/c.gif'' := Some (File 3))"

text \<open>The same directory with a folder that stands where the second final name goes.\<close>

definition blocked_disk :: "string \<Rightarrow> node option" where
  "blocked_disk = example_disk(''/d/x_002.jpg'' := Some Folder)"

text \<open>A blank string: not empty, and made of white space only (\<^verbatim>\<open>str.isspace\<close> on ASCII).\<close>

definition whitespace_only :: "string \<Rightarrow> bool" where
  "whitespace_only s =
     (s \<noteq> [] \<and>
      list_all (\<lambda>c. c \<in> set [CHR '' '', CHR 0x09, CHR 0x0A, CHR 0x0B, CHR 0x0C, CHR 0x0D]) s)"

text \<open>
  The whole of \<^verbatim>\<open>run\<close> over the plan: the renames of phase 1, then those of phase 2
  over the items of the dictionary that phase 1 builds, with the signals that go with
  the renames done, closed by the one signal that tells how it ended.
\<close>

definition planned_run :: "'fs env \<Rightarrow> string \<Rightarrow> string list \<Rightarrow> string \<Rightarrow> 'fs \<Rightarrow> 'fs world" where
  "planned_run E folder_path image_files new_prefix fs =
     (let shuffled = random_shuffle E image_files;
          n = length shuffled;
          temp_names = phase1_names E 0 shuffled [];
          started = Progress_update 0 ''Phase 1/2: Preparing files...'';
          halfway = Progress_update 50 ''Phase 2/2: Finalizing names...''
      in case rename_all (os_rename E) fs (phase1_renames E folder_path 0 shuffled) of
           (fs1, k1, Some e) \<Rightarrow>
             \<lparr>disk = fs1, signals = started # phase1_events n 0 k1 @ [Error e]\<rparr>
         | (fs1, k1, None) \<Rightarrow>
             (case rename_all (os_rename E) fs1 (phase2_renames folder_path new_prefix 1 temp_names) of
                (fs2, k2, Some e) \<Rightarrow>
                  \<lparr>disk = fs2,
                   signals = started # phase1_events n 0 n @ halfway # phase2_events n 1 k2 @ [Error e]\<rparr>
              | (fs2, k2, None) \<Rightarrow>
                  \<lparr>disk = fs2,
                   signals = started # phase1_events n 0 n @ halfway #
                     phase2_events n 1 (length temp_names) @
                     [Finished (phase2_names new_prefix 1 temp_names [])
                        (float_sub (time_time E 1) (time_time E 0))]\<rparr>))"

text \<open>The same environment with other tokens from \<^verbatim>\<open>uuid4\<close>.\<close>

definition example_env2 :: "(string \<Rightarrow> node option) env" where
  "example_env2 = example_env\<lparr>uuid4 := (\<lambda>k. ''other'' @ str_nat k)\<rparr>"

text \<open>All the renames that \<^verbatim>\<open>run\<close> plans, phase 1 first.\<close>

definition run_renames :: "'fs env \<Rightarrow> string \<Rightarrow> string list \<Rightarrow> string \<Rightarrow> (string \<times> string) list" where
  "run_renames E folder_path image_files new_prefix =
     (let shuffled = random_shuffle E image_files
      in phase1_renames E folder_path 0 shuffled @
         phase2_renames folder_path new_prefix 1 (phase1_names E 0 shuffled []))"

text \<open>A directory listing: image files in several cases, a text file, a folder named like
  an image, a dot file and a backup file.\<close>

definition example_listdir :: "string \<Rightarrow> exn + string list" where
  "example_listdir p =
     Inr [''a.png'', ''B.JPG'', ''notes.txt'', ''sub.gif'', ''.jpg'', ''c.WebP'', ''d.jpeg.bak'']"

definition example_isfile :: "string \<Rightarrow> bool" where
  "example_isfile p = (p \<noteq> ''/d/sub.gif'')"

text \<open>Reading a number back from its digits (\<^verbatim>\<open>int(s)\<close> on a string of ASCII digits).\<close>

definition is_digit :: "char \<Rightarrow> bool" where
  "is_digit c = (48 \<le> (of_char c :: nat) \<and> (of_char c :: nat) \<le> 57)"

definition digit_value :: "char \<Rightarrow> nat" where
  "digit_value c = of_char c - 48"

definition int_of_digits :: "string \<Rightarrow> nat" where
  "int_of_digits s = foldl (\<lambda>acc c. 10 * acc + digit_value c) 0 s"

text \<open>
  A rename on a directory seen as a map from paths to entries moves an entry, when it
  does not raise: the source named an entry, which the destination names afterwards,
  and the source names nothing any more. When and why it raises is left open.
\<close>

definition moves_entry ::
  "((string \<Rightarrow> 'n option) \<Rightarrow> string \<Rightarrow> string \<Rightarrow> exn + (string \<Rightarrow> 'n option)) \<Rightarrow> bool" where
  "moves_entry r =
     (\<forall>fs src dst fs'. r fs src dst = Inr fs' \<longrightarrow>
        fs src \<noteq> None \<and> fs' = (fs(src := None))(dst := fs src))"

section \<open>Properties\<close>

subsection \<open>The prefix\<close>

lemma py_or_empty: "py_or [] b = b"
  by (simp add: py_or_def)

lemma py_or_nonempty: "a \<noteq> [] \<Longrightarrow> py_or a b = a"
  by (simp add: py_or_def)

text \<open>
  C7, as the code has it: when \<^verbatim>\<open>process_folder\<close> starts the worker, the prefix it
  passes is \<^verbatim>\<open>"image_"\<close> if the text of the prefix field is the empty string, and that
  text itself otherwise, white space included; nothing strips or tests for blanks.
\<close>

theorem prefix_default_only_when_empty:
  assumes "process_folder os_path_isdir os_listdir os_path_isfile path_text prefix_text reply_yes =
             Started folder_path image_files new_prefix"
  shows "new_prefix = (if prefix_text = [] then ''image_'' else prefix_text)"
  using assms
  by (auto simp: process_folder_def py_or_def Let_def split: if_splits sum.splits)

theorem prefix_default_only_when_empty_witness:
  "process_folder (\<lambda>p. True) (\<lambda>p. Inr [''a.png'']) (\<lambda>p. True) ''/d'' [] True =
     Started ''/d'' [''a.png''] ''image_'' \<and>
   ''image_'' = (if ([] :: string) = [] then ''image_'' else [])"
proof -
  have h: "process_folder (\<lambda>p. True) (\<lambda>p. Inr [''a.png'']) (\<lambda>p. True) ''/d'' [] True =
     Started ''/d'' [''a.png''] ''image_''"
    by code_simp
  from prefix_default_only_when_empty [OF h] h show ?thesis by simp
qed

text \<open>C7 as stated fails on a blank prefix: two spaces are passed on as they are.\<close>

theorem blank_prefix_counterexample:
  "whitespace_only ''  '' \<and>
   process_folder (\<lambda>p. True) (\<lambda>p. Inr [''a.png'']) (\<lambda>p. True) ''/d'' ''  '' True =
     Started ''/d'' [''a.png''] ''  '' \<and>
   process_folder (\<lambda>p. True) (\<lambda>p. Inr [''a.png'']) (\<lambda>p. True) ''/d'' ''  '' True \<noteq>
     Started ''/d'' [''a.png''] ''image_''"
  by code_simp

subsection \<open>The empty list\<close>

text \<open>
  C9: on an empty list (which a shuffle leaves empty) \<^verbatim>\<open>run\<close> raises nothing, leaves the
  file system as it is and emits the two phase markers and then the success signal with
  an empty mapping. The division by the number of files would raise there
  (\<open>half_percent k 0\<close> is the exception), but it stands inside the loops, which do not run.
\<close>

theorem run_empty_list_succeeds:
  assumes "random_shuffle E [] = []"
  shows "run E folder_path [] new_prefix fs =
           \<lparr>disk = fs,
            signals = [Progress_update 0 ''Phase 1/2: Preparing files...'',
                       Progress_update 50 ''Phase 2/2: Finalizing names...'',
                       Finished [] (float_sub (time_time E 1) (time_time E 0))]\<rparr> \<and>
         half_percent k 0 = Inl ''division by zero''"
  using assms by (simp add: run_def run_body_def emit_def half_percent_def py_truediv_def)

theorem run_empty_list_succeeds_witness:
  "random_shuffle example_env [] = [] \<and>
   run example_env ''/d'' [] ''x_'' example_disk =
     \<lparr>disk = example_disk,
      signals = [Progress_update 0 ''Phase 1/2: Preparing files...'',
                 Progress_update 50 ''Phase 2/2: Finalizing names...'',
                 Finished [] (float_sub (time_time example_env 1) (time_time example_env 0))]\<rparr> \<and>
   half_percent 1 0 = Inl ''division by zero''"
proof -
  have h: "random_shuffle example_env [] = []"
    by (simp add: example_env_def)
  from run_empty_list_succeeds [OF h] h show ?thesis by blast
qed

subsection \<open>The loops carry out the plan\<close>

lemma half_percent_pos: "0 < n \<Longrightarrow> half_percent k n = Inr (pct k n)"
  by (simp add: half_percent_def py_truediv_def pct_def)

lemma phase1_events_0: "phase1_events tot i 0 = []"
  by (simp add: phase1_events_def)

lemma phase1_events_Suc:
  "phase1_events tot i (Suc n) =
     Progress_update (pct (i + 1) tot)
       (''Phase 1/2: Preparing file '' @ str_nat (i + 1) @ ''/'' @ str_nat tot) #
     phase1_events tot (Suc i) n"
  using upt_conv_Cons [of i "i + Suc n"] by (simp add: phase1_events_def)

lemma phase2_events_0: "phase2_events tot i 0 = []"
  by (simp add: phase2_events_def)

lemma phase2_events_Suc:
  "phase2_events tot i (Suc n) =
     Progress_update (50 + pct i tot)
       (''Phase 2/2: Renaming file '' @ str_nat i @ ''/'' @ str_nat tot) #
     phase2_events tot (Suc i) n"
  using upt_conv_Cons [of i "i + Suc n"] by (simp add: phase2_events_def)

lemma phase1_plan:
  assumes "0 < tot"
  shows "phase1 E folder tot i files d w =
     (case rename_all (os_rename E) (disk w) (phase1_renames E folder i files) of
        (fs', k, None) \<Rightarrow>
          (Inr (phase1_names E i files d),
           w\<lparr>disk := fs', signals := signals w @ phase1_events tot i (length files)\<rparr>)
      | (fs', k, Some e) \<Rightarrow>
          (Inl e, w\<lparr>disk := fs', signals := signals w @ phase1_events tot i k\<rparr>))"
proof (induction files arbitrary: i d w)
  case Nil
  show ?case by (simp add: phase1_events_0)
next
  case (Cons f files)
  show ?case
  proof (cases "os_rename E (disk w) (os_path_join folder f) (os_path_join folder (temp_name E i f))")
    case (Inl e)
    then show ?thesis
      by (simp add: temp_name_def phase1_events_0)
  next
    case (Inr fs1)
    then show ?thesis
      using assms
      by (simp add: temp_name_def half_percent_pos Cons.IH emit_def phase1_events_Suc
          split: prod.splits option.splits)
  qed
qed

lemma phase2_plan:
  assumes "0 < tot"
  shows "phase2 E folder new_prefix tot i items d w =
     (case rename_all (os_rename E) (disk w) (phase2_renames folder new_prefix i items) of
        (fs', k, None) \<Rightarrow>
          (Inr (phase2_names new_prefix i items d),
           w\<lparr>disk := fs', signals := signals w @ phase2_events tot i (length items)\<rparr>)
      | (fs', k, Some e) \<Rightarrow>
          (Inl e, w\<lparr>disk := fs', signals := signals w @ phase2_events tot i k\<rparr>))"
proof (induction items arbitrary: i d w)
  case Nil
  show ?case by (simp add: phase2_events_0)
next
  case (Cons it items)
  obtain f t where it: "it = (f, t)" by (cases it)
  show ?case
  proof (cases "os_rename E (disk w) (os_path_join folder t) (os_path_join folder (final_name new_prefix i f))")
    case (Inl e)
    then show ?thesis
      by (simp add: it final_name_def phase2_events_0)
  next
    case (Inr fs1)
    then show ?thesis
      using assms
      by (simp add: it final_name_def half_percent_pos Cons.IH emit_def phase2_events_Suc
          split: prod.splits option.splits)
  qed
qed

lemma run_planned:
  "run E folder_path image_files new_prefix fs = planned_run E folder_path image_files new_prefix fs"
proof (cases "random_shuffle E image_files = []")
  case True
  then show ?thesis
    by (simp add: run_def run_body_def planned_run_def emit_def phase1_events_0 phase2_events_0)
next
  case False
  then have pos: "0 < length (random_shuffle E image_files)" by simp
  show ?thesis
    unfolding run_def run_body_def planned_run_def Let_def
    by (simp add: phase1_plan [OF pos] phase2_plan [OF pos] emit_def
        split: prod.splits option.splits sum.splits)
qed

subsection \<open>Dictionaries\<close>

lemma setitem_fresh: "k \<notin> fst ` set d \<Longrightarrow> setitem d k v = d @ [(k, v)]"
  by (induction d) auto

lemma setitem_keys:
  "map fst (setitem d k v) = (if k \<in> fst ` set d then map fst d else map fst d @ [k])"
proof (induction d)
  case Nil
  show ?case by simp
next
  case (Cons p d)
  obtain k' v' where p: "p = (k', v')" by (cases p)
  show ?case
  proof (cases "k \<in> fst ` set d")
    case True
    with Cons.IH show ?thesis by (simp add: p)
  next
    case False
    with Cons.IH show ?thesis by (simp add: p)
  qed
qed

lemma phase1_names_keys:
  "map fst d1 = map fst d2 \<Longrightarrow>
   map fst (phase1_names E1 i files d1) = map fst (phase1_names E2 j files d2)"
proof (induction files arbitrary: i j d1 d2)
  case Nil
  then show ?case by simp
next
  case (Cons f files)
  from Cons.prems have "fst ` set d1 = fst ` set d2"
    by (metis list.set_map)
  with Cons.prems
  have "map fst (setitem d1 f (temp_name E1 i f)) = map fst (setitem d2 f (temp_name E2 j f))"
    by (simp add: setitem_keys)
  then show ?case
    by (simp add: Cons.IH)
qed

lemma phase2_names_keys:
  "map fst items1 = map fst items2 \<Longrightarrow>
   phase2_names new_prefix i items1 d = phase2_names new_prefix i items2 d"
proof (induction items1 arbitrary: items2 i d)
  case Nil
  then show ?case by simp
next
  case (Cons it items1)
  then obtain it' items2' where s: "items2 = it' # items2'" "fst it = fst it'" "map fst items1 = map fst items2'"
    by (cases items2) auto
  obtain f t where it: "it = (f, t)" by (cases it)
  with s obtain t' where it': "it' = (f, t')" by (cases it') auto
  show ?case
    using Cons.IH [OF s(3)] by (simp add: s it it')
qed

lemma phase1_names_distinct:
  "distinct files \<Longrightarrow> set files \<inter> fst ` set d = {} \<Longrightarrow>
   phase1_names E i files d = d @ map (\<lambda>(j, f). (f, temp_name E j f)) (enumerate i files)"
proof (induction files arbitrary: i d)
  case Nil
  then show ?case by simp
next
  case (Cons f files)
  from Cons.prems have fresh: "f \<notin> fst ` set d" by auto
  have "set files \<inter> fst ` set (d @ [(f, temp_name E i f)]) = {}"
    using Cons.prems by auto
  with Cons.prems Cons.IH [of "d @ [(f, temp_name E i f)]" "i + 1"] fresh
  show ?case
    by (simp add: setitem_fresh)
qed

lemma phase2_names_distinct:
  "distinct (map fst items) \<Longrightarrow> fst ` set items \<inter> fst ` set d = {} \<Longrightarrow>
   phase2_names new_prefix i items d =
     d @ map (\<lambda>(j, f). (f, final_name new_prefix j f)) (enumerate i (map fst items))"
proof (induction items arbitrary: i d)
  case Nil
  then show ?case by simp
next
  case (Cons it items)
  obtain f t where it: "it = (f, t)" by (cases it)
  from Cons.prems have fresh: "f \<notin> fst ` set d" by (auto simp: it)
  have "fst ` set items \<inter> fst ` set (d @ [(f, final_name new_prefix i f)]) = {}"
    using Cons.prems by (auto simp: it)
  with Cons.prems Cons.IH [of "d @ [(f, final_name new_prefix i f)]" "i + 1"] fresh
  show ?case
    by (simp add: setitem_fresh it)
qed

lemma temp_names_distinct:
  "distinct files \<Longrightarrow>
   phase1_names E 0 files [] = map (\<lambda>(j, f). (f, temp_name E j f)) (enumerate 0 files)"
  using phase1_names_distinct [of files "[]" E 0] by simp

lemma temp_names_keys_distinct: "distinct files \<Longrightarrow> map fst (phase1_names E 0 files []) = files"
proof -
  have "map fst (map (\<lambda>(j, f). (f, temp_name E j f)) (enumerate i files)) = files" for i
    by (induction files arbitrary: i) auto
  then show "distinct files \<Longrightarrow> map fst (phase1_names E 0 files []) = files"
    by (simp add: temp_names_distinct)
qed

lemma final_names_distinct:
  "distinct files \<Longrightarrow>
   phase2_names new_prefix 1 (phase1_names E 0 files []) [] =
     map (\<lambda>(j, f). (f, final_name new_prefix j f)) (enumerate 1 files)"
  using phase2_names_distinct [of "phase1_names E 0 files []" "[]" new_prefix 1]
  by (simp add: temp_names_keys_distinct)

subsection \<open>The result of a run\<close>

lemma rename_result_snoc:
  "rename_result (evs @ [ev]) = (case ev of Finished r d \<Rightarrow> Some r | _ \<Rightarrow> None)"
  by (simp add: rename_result_def)

lemma rename_result_Error: "rename_result (ev0 # evs @ [Error e]) = None"
  using rename_result_snoc [of "ev0 # evs" "Error e"] by simp

lemma rename_result_Error2: "rename_result (ev0 # evs @ ev1 # evs' @ [Error e]) = None"
  using rename_result_snoc [of "ev0 # evs @ ev1 # evs'" "Error e"] by simp

lemma rename_result_Finished2: "rename_result (ev0 # evs @ ev1 # evs' @ [Finished r d]) = Some r"
  using rename_result_snoc [of "ev0 # evs @ ev1 # evs'" "Finished r d"] by simp

lemma run_success:
  "rename_result (signals (run E folder_path image_files new_prefix fs)) = Some r \<longleftrightarrow>
     (\<exists>fs1 k1 fs2 k2.
        rename_all (os_rename E) fs (phase1_renames E folder_path 0 (random_shuffle E image_files)) =
          (fs1, k1, None) \<and>
        rename_all (os_rename E) fs1
          (phase2_renames folder_path new_prefix 1 (phase1_names E 0 (random_shuffle E image_files) [])) =
          (fs2, k2, None) \<and>
        r = phase2_names new_prefix 1 (phase1_names E 0 (random_shuffle E image_files) []) [])"
  unfolding run_planned planned_run_def Let_def
  by (auto simp: rename_result_Error rename_result_Error2 rename_result_Finished2
      split: prod.splits option.splits)

subsection \<open>Final names\<close>

lemma map_enumerate_upt:
  "map (\<lambda>(i, f). g i f) (enumerate 1 xs) = map (\<lambda>i. g i (xs ! (i - 1))) [1..<Suc (length xs)]"
  by (rule nth_equalityI) (simp_all add: nth_enumerate_eq del: upt_Suc)

text \<open>
  C10: two successful runs that work through the same shuffled list with the same prefix
  hand over the same mapping, whatever their tokens from \<^verbatim>\<open>uuid4\<close>, their folders, their
  file systems and their clocks are.
\<close>

theorem result_independent_of_temp_names:
  assumes "random_shuffle E1 files1 = random_shuffle E2 files2"
    and "rename_result (signals (run E1 folder1 files1 new_prefix fs1)) = Some r1"
    and "rename_result (signals (run E2 folder2 files2 new_prefix fs2)) = Some r2"
  shows "r1 = r2"
proof -
  let ?xs = "random_shuffle E2 files2"
  have k: "map fst (phase1_names E1 0 ?xs []) = map fst (phase1_names E2 0 ?xs [])"
    by (rule phase1_names_keys) simp
  from assms(2) have "r1 = phase2_names new_prefix 1 (phase1_names E1 0 ?xs []) []"
    by (auto simp: run_success assms(1))
  moreover from assms(3) have "r2 = phase2_names new_prefix 1 (phase1_names E2 0 ?xs []) []"
    by (auto simp: run_success)
  ultimately show ?thesis
    using phase2_names_keys [OF k] by simp
qed

theorem result_independent_of_temp_names_witness:
  "random_shuffle example_env example_files = random_shuffle example_env2 example_files \<and>
   uuid4 example_env 0 \<noteq> uuid4 example_env2 0 \<and>
   rename_result (signals (run example_env ''/d'' example_files ''x_'' example_disk)) =
     rename_result (signals (run example_env2 ''/d'' example_files ''x_'' example_disk)) \<and>
   rename_result (signals (run example_env2 ''/d'' example_files ''x_'' example_disk)) =
     Some [(''c.gif'', ''x_001.gif''), (''b.jpg'', ''x_002.jpg''), (''a.png'', ''x_003.png'')]"
proof -
  have p: "random_shuffle example_env example_files = random_shuffle example_env2 example_files"
    by (simp add: example_env_def example_env2_def)
  have u: "uuid4 example_env 0 \<noteq> uuid4 example_env2 0"
    by code_simp
  have s1: "rename_result (signals (run example_env ''/d'' example_files ''x_'' example_disk)) =
     Some [(''c.gif'', ''x_001.gif''), (''b.jpg'', ''x_002.jpg''), (''a.png'', ''x_003.png'')]"
    by code_simp
  have s2: "rename_result (signals (run example_env2 ''/d'' example_files ''x_'' example_disk)) =
     Some [(''c.gif'', ''x_001.gif''), (''b.jpg'', ''x_002.jpg''), (''a.png'', ''x_003.png'')]"
    by code_simp
  from result_independent_of_temp_names [OF p s1 s2] p u s1 s2 show ?thesis by simp
qed

subsection \<open>The executor of the plan\<close>

lemma rename_all_None: "rename_all r fs ps = (fs', k, None) \<Longrightarrow> k = length ps"
proof (induction ps arbitrary: fs k)
  case Nil
  then show ?case by simp
next
  case (Cons p ps)
  obtain a b where p: "p = (a, b)" by (cases p)
  from Cons.prems Cons.IH show ?case
    by (auto simp: p split: sum.splits prod.splits)
qed

lemma rename_all_Some:
  "rename_all r fs ps = (fs', k, Some e) \<Longrightarrow>
   k < length ps \<and> rename_all r fs (take k ps) = (fs', k, None) \<and>
   r fs' (fst (ps ! k)) (snd (ps ! k)) = Inl e"
proof (induction ps arbitrary: fs k)
  case Nil
  then show ?case by simp
next
  case (Cons p ps)
  obtain a b where p: "p = (a, b)" by (cases p)
  show ?case
  proof (cases "r fs a b")
    case (Inl e')
    with Cons.prems show ?thesis by (simp add: p)
  next
    case (Inr fs1)
    obtain fs2 k2 eo where rest: "rename_all r fs1 ps = (fs2, k2, eo)"
      by (metis prod_cases3)
    with Cons.prems Inr have eq: "fs' = fs2" "k = Suc k2" "eo = Some e"
      by (simp_all add: p)
    from Cons.IH [of fs1 k2] rest eq
    have "k2 < length ps \<and> rename_all r fs1 (take k2 ps) = (fs', k2, None) \<and>
          r fs' (fst (ps ! k2)) (snd (ps ! k2)) = Inl e"
      by simp
    then show ?thesis
      by (simp add: eq p Inr)
  qed
qed

lemma rename_all_append:
  "rename_all r fs (ps @ qs) =
     (case rename_all r fs ps of
        (fs1, k1, Some e) \<Rightarrow> (fs1, k1, Some e)
      | (fs1, k1, None) \<Rightarrow> (case rename_all r fs1 qs of (fs2, k2, eo) \<Rightarrow> (fs2, k1 + k2, eo)))"
proof (induction ps arbitrary: fs)
  case Nil
  show ?case by (simp split: prod.splits)
next
  case (Cons p ps)
  obtain a b where p: "p = (a, b)" by (cases p)
  show ?case
    by (simp add: p Cons.IH split: sum.splits prod.splits option.splits)
qed

lemma length_phase1_renames: "length (phase1_renames E folder_path i files) = length files"
  by (induction files arbitrary: i) auto

lemma length_phase2_renames: "length (phase2_renames folder_path new_prefix i items) = length items"
  by (induction items arbitrary: i) auto

lemma length_setitem: "length (setitem d k v) \<le> Suc (length d)"
  by (induction d) auto

lemma length_phase1_names: "length (phase1_names E i files d) \<le> length d + length files"
proof (induction files arbitrary: i d)
  case Nil
  show ?case by simp
next
  case (Cons f files)
  have "length (phase1_names E (i + 1) files (setitem d f (temp_name E i f)))
          \<le> length (setitem d f (temp_name E i f)) + length files"
    by (rule Cons.IH)
  also have "\<dots> \<le> Suc (length d) + length files"
    using length_setitem [of d f "temp_name E i f"] by simp
  finally show ?case by simp
qed

text \<open>The three ways a run ends.\<close>

lemma run_cases:
  fixes E :: "'fs env"
  defines "started \<equiv> Progress_update 0 ''Phase 1/2: Preparing files...''"
    and "halfway \<equiv> Progress_update 50 ''Phase 2/2: Finalizing names...''"
  obtains
    (phase1_failed) fs1 k1 e where
      "rename_all (os_rename E) fs (phase1_renames E folder_path 0 (random_shuffle E image_files)) =
         (fs1, k1, Some e)"
      "k1 < length (random_shuffle E image_files)"
      "run E folder_path image_files new_prefix fs =
         \<lparr>disk = fs1,
          signals = (started # phase1_events (length (random_shuffle E image_files)) 0 k1) @ [Error e]\<rparr>"
  | (phase2_failed) fs1 fs2 k2 e where
      "rename_all (os_rename E) fs (phase1_renames E folder_path 0 (random_shuffle E image_files)) =
         (fs1, length (random_shuffle E image_files), None)"
      "rename_all (os_rename E) fs1
         (phase2_renames folder_path new_prefix 1 (phase1_names E 0 (random_shuffle E image_files) [])) =
         (fs2, k2, Some e)"
      "k2 < length (phase1_names E 0 (random_shuffle E image_files) [])"
      "run E folder_path image_files new_prefix fs =
         \<lparr>disk = fs2,
          signals = (started # phase1_events (length (random_shuffle E image_files)) 0
                       (length (random_shuffle E image_files)) @
                     halfway # phase2_events (length (random_shuffle E image_files)) 1 k2) @ [Error e]\<rparr>"
  | (succeeded) fs1 fs2 where
      "rename_all (os_rename E) fs (phase1_renames E folder_path 0 (random_shuffle E image_files)) =
         (fs1, length (random_shuffle E image_files), None)"
      "rename_all (os_rename E) fs1
         (phase2_renames folder_path new_prefix 1 (phase1_names E 0 (random_shuffle E image_files) [])) =
         (fs2, length (phase1_names E 0 (random_shuffle E image_files) []), None)"
      "run E folder_path image_files new_prefix fs =
         \<lparr>disk = fs2,
          signals = (started # phase1_events (length (random_shuffle E image_files)) 0
                       (length (random_shuffle E image_files)) @
                     halfway # phase2_events (length (random_shuffle E image_files)) 1
                       (length (phase1_names E 0 (random_shuffle E image_files) []))) @
                    [Finished (phase2_names new_prefix 1 (phase1_names E 0 (random_shuffle E image_files) []) [])
                       (float_sub (time_time E 1) (time_time E 0))]\<rparr>"
proof -
  let ?xs = "random_shuffle E image_files"
  let ?d = "phase1_names E 0 ?xs []"
  obtain fs1 k1 eo1 where r1:
    "rename_all (os_rename E) fs (phase1_renames E folder_path 0 ?xs) = (fs1, k1, eo1)"
    by (metis prod_cases3)
  show thesis
  proof (cases eo1)
    case (Some e)
    from rename_all_Some [OF r1 [unfolded Some]] have "k1 < length ?xs"
      by (simp add: length_phase1_renames)
    moreover have "run E folder_path image_files new_prefix fs =
         \<lparr>disk = fs1, signals = (started # phase1_events (length ?xs) 0 k1) @ [Error e]\<rparr>"
      by (simp add: run_planned planned_run_def Let_def r1 Some started_def)
    ultimately show thesis
      using r1 Some phase1_failed by blast
  next
    case None
    from rename_all_None [OF r1 [unfolded None]] have k1: "k1 = length ?xs"
      by (simp add: length_phase1_renames)
    obtain fs2 k2 eo2 where r2:
      "rename_all (os_rename E) fs1 (phase2_renames folder_path new_prefix 1 ?d) = (fs2, k2, eo2)"
      by (metis prod_cases3)
    show thesis
    proof (cases eo2)
      case (Some e)
      from rename_all_Some [OF r2 [unfolded Some]] have "k2 < length ?d"
        by (simp add: length_phase2_renames)
      moreover have "run E folder_path image_files new_prefix fs =
         \<lparr>disk = fs2,
          signals = (started # phase1_events (length ?xs) 0 (length ?xs) @
                     halfway # phase2_events (length ?xs) 1 k2) @ [Error e]\<rparr>"
        by (simp add: run_planned planned_run_def Let_def r1 r2 [unfolded One_nat_def] None Some
            started_def halfway_def)
      ultimately show thesis
        using r1 r2 None Some k1 phase2_failed by blast
    next
      case None2: None
      from rename_all_None [OF r2 [unfolded None2]] have k2: "k2 = length ?d"
        by (simp add: length_phase2_renames)
      have "run E folder_path image_files new_prefix fs =
         \<lparr>disk = fs2,
          signals = (started # phase1_events (length ?xs) 0 (length ?xs) @
                     halfway # phase2_events (length ?xs) 1 (length ?d)) @
                    [Finished (phase2_names new_prefix 1 ?d [])
                       (float_sub (time_time E 1) (time_time E 0))]\<rparr>"
        by (simp add: run_planned planned_run_def Let_def r1 r2 [unfolded One_nat_def] None None2
            started_def halfway_def)
      then show thesis
        using r1 r2 None None2 k1 k2 succeeded by blast
    qed
  qed
qed

subsection \<open>One terminal signal\<close>

lemma phase1_events_progress: "filter is_terminal (phase1_events n i k) = []"
  by (simp add: phase1_events_def filter_map o_def)

lemma phase2_events_progress: "filter is_terminal (phase2_events n i k) = []"
  by (simp add: phase2_events_def filter_map o_def)

text \<open>
  C4: the signals of a run are progress signals followed by exactly one terminal signal,
  which is either the success signal (with the mapping and the duration) or the failure
  signal (with the message), and which comes last.
\<close>

theorem run_one_terminal_signal_last:
  "\<exists>evs t. signals (run E folder_path image_files new_prefix fs) = evs @ [t] \<and>
     filter is_terminal evs = [] \<and>
     ((\<exists>r d. t = Finished r d) \<or> (\<exists>e. t = Error e))"
proof (cases rule: run_cases [where E = E and fs = fs and folder_path = folder_path
      and image_files = image_files and new_prefix = new_prefix])
  case (phase1_failed fs1 k1 e)
  then show ?thesis
    by (simp add: phase1_events_progress)
next
  case (phase2_failed fs1 fs2 k2 e)
  then show ?thesis
    by (simp add: phase1_events_progress phase2_events_progress)
next
  case (succeeded fs1 fs2)
  then show ?thesis
    by (simp add: phase1_events_progress phase2_events_progress)
qed

theorem run_one_terminal_signal_last_witness:
  "\<exists>evs t. signals (run example_env ''/d'' example_files ''x_'' blocked_disk) = evs @ [t] \<and>
     filter is_terminal evs = [] \<and>
     ((\<exists>r d. t = Finished r d) \<or> (\<exists>e. t = Error e))"
  by (rule run_one_terminal_signal_last)

subsection \<open>A rename that raises\<close>

lemma moves_entry_example: "moves_entry example_rename"
  by (auto simp: moves_entry_def example_rename_def split: option.splits if_splits)

lemma moves_entryD:
  "moves_entry r \<Longrightarrow> r fs src dst = Inr fs' \<Longrightarrow>
   fs src \<noteq> None \<and> fs' = (fs(src := None))(dst := fs src)"
  by (simp add: moves_entry_def)


lemma run_failure:
  assumes "rename_all (os_rename E) fs (run_renames E folder_path image_files new_prefix) =
             (fs', k, Some e)"
  shows "disk (run E folder_path image_files new_prefix fs) = fs' \<and>
         (\<exists>evs. signals (run E folder_path image_files new_prefix fs) = evs @ [Error e] \<and>
                filter is_terminal evs = [])"
proof (cases rule: run_cases [where E = E and fs = fs and folder_path = folder_path
      and image_files = image_files and new_prefix = new_prefix])
  case (phase1_failed fs1 k1 e1)
  with assms have "fs' = fs1" "e = e1"
    by (simp_all add: run_renames_def Let_def rename_all_append)
  with phase1_failed(3) show ?thesis
    by (simp add: phase1_events_progress)
next
  case (phase2_failed fs1 fs2 k2 e2)
  with assms have "fs' = fs2" "e = e2"
    by (simp_all add: run_renames_def Let_def rename_all_append)
  with phase2_failed(4) show ?thesis
    by (simp add: phase1_events_progress phase2_events_progress)
next
  case (succeeded fs1 fs2)
  with assms show ?thesis
    by (simp add: run_renames_def Let_def rename_all_append)
qed

text \<open>
  C5: if a rename of the plan raises \<open>e\<close> after \<open>k\<close> renames were done, \<^verbatim>\<open>run\<close> returns
  (the exception does not leave it) with the file system exactly as those \<open>k\<close> renames
  left it: nothing is undone and no later rename is carried out. Its signals are progress
  signals and then, once and last, the failure signal with \<^verbatim>\<open>str(e)\<close>.
\<close>

theorem rename_failure_ends_run:
  assumes "rename_all (os_rename E) fs (run_renames E folder_path image_files new_prefix) =
             (fs', k, Some e)"
  shows "disk (run E folder_path image_files new_prefix fs) = fs' \<and>
         (\<exists>evs. signals (run E folder_path image_files new_prefix fs) = evs @ [Error e] \<and>
                filter is_terminal evs = []) \<and>
         k < length (run_renames E folder_path image_files new_prefix) \<and>
         rename_all (os_rename E) fs (take k (run_renames E folder_path image_files new_prefix)) =
           (fs', k, None) \<and>
         os_rename E fs' (fst (run_renames E folder_path image_files new_prefix ! k))
           (snd (run_renames E folder_path image_files new_prefix ! k)) = Inl e"
  using run_failure [OF assms] rename_all_Some [OF assms] by blast

theorem rename_failure_ends_run_witness:
  "snd (rename_all (os_rename example_env) blocked_disk
          (run_renames example_env ''/d'' example_files ''x_'')) =
     (4, Some ''[Errno 21] Is a directory'') \<and>
   disk (run example_env ''/d'' example_files ''x_'' blocked_disk) =
     fst (rename_all (os_rename example_env) blocked_disk
            (run_renames example_env ''/d'' example_files ''x_'')) \<and>
   (\<exists>evs. signals (run example_env ''/d'' example_files ''x_'' blocked_disk) =
            evs @ [Error ''[Errno 21] Is a directory''] \<and>
          filter is_terminal evs = [])"
proof -
  have s: "snd (rename_all (os_rename example_env) blocked_disk
          (run_renames example_env ''/d'' example_files ''x_'')) =
     (4, Some ''[Errno 21] Is a directory'')"
    by code_simp
  then have h: "rename_all (os_rename example_env) blocked_disk
          (run_renames example_env ''/d'' example_files ''x_'') =
     (fst (rename_all (os_rename example_env) blocked_disk
            (run_renames example_env ''/d'' example_files ''x_'')),
      4, Some ''[Errno 21] Is a directory'')"
    by (metis prod.collapse)
  from rename_failure_ends_run [OF h] s show ?thesis by blast
qed

subsection \<open>The enumeration\<close>

lemma lower_image_extensions: "map lower image_extensions = image_extensions"
  by code_simp

lemma mem_fixed_image: "\<forall>e \<in> S. g e = e \<Longrightarrow> (x \<in> S) = (\<exists>e \<in> S. x = g e)"
  by force

text \<open>
  C8: for a directory that can be listed, \<^verbatim>\<open>get_image_files\<close> returns the entries of the
  listing, in its order, that name a regular file and whose extension (that of
  \<^verbatim>\<open>os.path.splitext\<close>) in lower case is one of the seven supported ones, and no other
  entry. The test is one of equality up to the case of the letters with a supported
  extension.
\<close>

theorem get_image_files_exact:
  assumes "os_listdir folder_path = Inr entries"
  shows "get_image_files os_listdir os_path_isfile folder_path =
           Inr (filter (\<lambda>f. os_path_isfile (os_path_join folder_path f) \<and>
                  lower (snd (splitext f)) \<in>
                    {''.jpg'', ''.jpeg'', ''.png'', ''.gif'', ''.bmp'', ''.tiff'', ''.webp''}) entries) \<and>
         (\<forall>f. (lower (snd (splitext f)) \<in>
                 {''.jpg'', ''.jpeg'', ''.png'', ''.gif'', ''.bmp'', ''.tiff'', ''.webp''}) =
              (\<exists>e \<in> {''.jpg'', ''.jpeg'', ''.png'', ''.gif'', ''.bmp'', ''.tiff'', ''.webp''}.
                 lower (snd (splitext f)) = lower e))"
proof -
  have l: "\<forall>e \<in> {''.jpg'', ''.jpeg'', ''.png'', ''.gif'', ''.bmp'', ''.tiff'', ''.webp''}. lower e = e"
    using lower_image_extensions by (simp add: image_extensions_def)
  show ?thesis
  proof (intro conjI allI)
    show "get_image_files os_listdir os_path_isfile folder_path =
           Inr (filter (\<lambda>f. os_path_isfile (os_path_join folder_path f) \<and>
                  lower (snd (splitext f)) \<in>
                    {''.jpg'', ''.jpeg'', ''.png'', ''.gif'', ''.bmp'', ''.tiff'', ''.webp''}) entries)"
      by (simp add: get_image_files_def assms image_extensions_def)
  next
    fix f
    show "(lower (snd (splitext f)) \<in>
                 {''.jpg'', ''.jpeg'', ''.png'', ''.gif'', ''.bmp'', ''.tiff'', ''.webp''}) =
              (\<exists>e \<in> {''.jpg'', ''.jpeg'', ''.png'', ''.gif'', ''.bmp'', ''.tiff'', ''.webp''}.
                 lower (snd (splitext f)) = lower e)"
      by (rule mem_fixed_image [OF l])
  qed
qed

theorem get_image_files_exact_witness:
  "example_listdir ''/d'' =
     Inr [''a.png'', ''B.JPG'', ''notes.txt'', ''sub.gif'', ''.jpg'', ''c.WebP'', ''d.jpeg.bak''] \<and>
   get_image_files example_listdir example_isfile ''/d'' = Inr [''a.png'', ''B.JPG'', ''c.WebP'']"
proof -
  have h: "example_listdir ''/d'' =
     Inr [''a.png'', ''B.JPG'', ''notes.txt'', ''sub.gif'', ''.jpg'', ''c.WebP'', ''d.jpeg.bak'']"
    by (simp add: example_listdir_def)
  have e: "filter (\<lambda>f. example_isfile (os_path_join ''/d'' f) \<and>
                  lower (snd (splitext f)) \<in>
                    {''.jpg'', ''.jpeg'', ''.png'', ''.gif'', ''.bmp'', ''.tiff'', ''.webp''})
            [''a.png'', ''B.JPG'', ''notes.txt'', ''sub.gif'', ''.jpg'', ''c.WebP'', ''d.jpeg.bak''] =
          [''a.png'', ''B.JPG'', ''c.WebP'']"
    by code_simp
  note g = conjunct1 [OF get_image_files_exact [of example_listdir "''/d''" _ example_isfile, OF h]]
  from h g [unfolded e] show ?thesis
    by (rule conjI)
qed

subsection \<open>Final names are different\<close>

lemma rfind_ge: "- 1 \<le> rfind p c"
  by (simp add: rfind_def split: list.splits)

lemma rfind_nth:
  assumes "0 \<le> rfind p c"
  shows "nat (rfind p c) < length p \<and> p ! nat (rfind p c) = c"
proof (cases "filter (\<lambda>k. p ! k = c) (rev [0..<length p])")
  case Nil
  with assms show ?thesis by (simp add: rfind_def)
next
  case (Cons k ks)
  then have "k \<in> set (filter (\<lambda>k. p ! k = c) (rev [0..<length p]))" by simp
  then have "k < length p \<and> p ! k = c" by simp
  moreover from Cons have "rfind p c = int k" by (simp add: rfind_def)
  ultimately show ?thesis by simp
qed

lemma splitext_ext: "snd (splitext p) = [] \<or> hd (snd (splitext p)) = CHR ''.''"
proof (cases "rfind p (CHR ''/'') < rfind p (CHR ''.'')")
  case True
  with rfind_ge [of p "CHR ''/''"] have "0 \<le> rfind p (CHR ''.'')" by simp
  from rfind_nth [OF this]
  have "drop (nat (rfind p (CHR ''.''))) p = CHR ''.'' # drop (Suc (nat (rfind p (CHR ''.'')))) p"
    by (metis Cons_nth_drop_Suc)
  then show ?thesis
    by (simp add: splitext_def Let_def)
next
  case False
  then show ?thesis
    by (simp add: splitext_def Let_def)
qed

lemma is_digit_digit_char: "d < 10 \<Longrightarrow> is_digit (digit_char d)"
  by (simp add: is_digit_def digit_char_def)

lemma digit_value_digit_char: "d < 10 \<Longrightarrow> digit_value (digit_char d) = d"
  by (simp add: digit_value_def digit_char_def)

lemma str_nat_digits: "list_all is_digit (str_nat n)"
proof (induction n rule: str_nat.induct)
  case (1 n)
  show ?case
  proof (cases "n < 10")
    case True
    then show ?thesis
      by (subst str_nat.simps) (simp add: is_digit_digit_char)
  next
    case False
    with "1" show ?thesis
      by (subst str_nat.simps) (simp add: is_digit_digit_char)
  qed
qed

lemma int_of_digits_str_nat: "int_of_digits (str_nat n) = n"
proof (induction n rule: str_nat.induct)
  case (1 n)
  show ?case
  proof (cases "n < 10")
    case True
    then show ?thesis
      by (subst str_nat.simps) (simp add: int_of_digits_def digit_value_digit_char)
  next
    case False
    with "1" have "int_of_digits (str_nat (n div 10)) = n div 10" by simp
    with False show ?thesis
      by (subst str_nat.simps) (simp add: int_of_digits_def digit_value_digit_char)
  qed
qed

lemma int_of_digits_zeros: "int_of_digits (replicate k (CHR ''0'') @ s) = int_of_digits s"
proof -
  have "foldl (\<lambda>acc c. 10 * acc + digit_value c) 0 (replicate k (CHR ''0'')) = 0"
    by (induction k) (simp_all add: digit_value_def)
  then show ?thesis
    by (simp add: int_of_digits_def)
qed

lemma format_03d_digits: "list_all is_digit (format_03d i)"
proof -
  have "is_digit (CHR ''0'')" by (simp add: is_digit_def)
  with str_nat_digits [of i] show ?thesis
    by (auto simp: format_03d_def Let_def list_all_iff)
qed

lemma int_of_digits_format_03d: "int_of_digits (format_03d i) = i"
  by (simp add: format_03d_def Let_def int_of_digits_zeros int_of_digits_str_nat)

lemma takeWhile_format_03d:
  "takeWhile is_digit (format_03d i @ snd (splitext f)) = format_03d i"
proof -
  have a: "\<forall>c \<in> set (format_03d i). is_digit c"
    using format_03d_digits [of i] by (simp add: list_all_iff)
  have "\<not> is_digit (CHR ''.'')" by (simp add: is_digit_def)
  with splitext_ext [of f]
  have "snd (splitext f) = [] \<or> \<not> is_digit (hd (snd (splitext f)))" by auto
  then show ?thesis
  proof
    assume "snd (splitext f) = []"
    with a show ?thesis by simp
  next
    assume n: "\<not> is_digit (hd (snd (splitext f)))"
    show ?thesis
    proof (cases "snd (splitext f)")
      case Nil
      with a show ?thesis by simp
    next
      case (Cons c cs)
      with n a show ?thesis by (simp add: takeWhile_append2)
    qed
  qed
qed

lemma final_name_index:
  "int_of_digits (takeWhile is_digit (drop (length new_prefix) (final_name new_prefix i f))) = i"
  by (simp add: final_name_def takeWhile_format_03d int_of_digits_format_03d)

lemma final_name_inj: "final_name new_prefix i f = final_name new_prefix j g \<Longrightarrow> i = j"
  by (metis final_name_index)

lemma final_names_values_distinct:
  "distinct (map (\<lambda>(j, f). final_name new_prefix j f) (enumerate n xs))"
proof -
  have "inj_on (\<lambda>(j, f). final_name new_prefix j f) (set (enumerate n xs))"
  proof (rule inj_onI)
    fix a b
    assume a: "a \<in> set (enumerate n xs)" and b: "b \<in> set (enumerate n xs)"
      and eq: "(case a of (j, f) \<Rightarrow> final_name new_prefix j f) = (case b of (j, f) \<Rightarrow> final_name new_prefix j f)"
    obtain i f where af: "a = (i, f)" by (cases a)
    obtain j g where bg: "b = (j, g)" by (cases b)
    from eq have ij: "i = j"
      by (simp add: af bg) (rule final_name_inj)
    from a b have "f = xs ! (i - n)" "g = xs ! (j - n)"
      by (simp_all add: af bg in_set_enumerate_eq)
    with ij show "a = b" by (simp add: af bg)
  qed
  then show ?thesis
    by (simp add: distinct_map distinct_enumerate)
qed

lemma map_fst_final_names:
  "map fst (map (\<lambda>(j, f). (f, g j f)) (enumerate n xs)) = xs"
  by (induction xs arbitrary: n) auto

lemma map_snd_final_names:
  "map snd (map (\<lambda>(j, f). (f, g j f)) (enumerate n xs)) = map (\<lambda>(j, f). g j f) (enumerate n xs)"
  by (induction xs arbitrary: n) auto

lemma phase1_succeeds:
  assumes "rename_all (os_rename E) (disk w) (phase1_renames E folder_path 0 xs) = (fs1, k1, None)"
  shows "\<exists>w'. phase1 E folder_path (length xs) 0 xs [] w = (Inr (phase1_names E 0 xs []), w')"
proof (cases xs)
  case Nil
  then show ?thesis by simp
next
  case (Cons x xs')
  then have pos: "0 < length xs" by simp
  show ?thesis
    by (simp add: phase1_plan [OF pos] assms)
qed

text \<open>
  C2: when \<^verbatim>\<open>run\<close> succeeds on a list of different file names (which the shuffle
  permutes), the dictionary \<^verbatim>\<open>temp_names\<close> that phase 1 returns and the mapping handed
  over both have every file name of the list as a key exactly once and no other key; the
  mapping has as many entries as there are files, and no final name occurs twice in it.
\<close>

theorem every_file_mapped_once:
  assumes "mset (random_shuffle E image_files) = mset image_files"
    and "distinct image_files"
    and "rename_result (signals (run E folder_path image_files new_prefix fs)) = Some r"
  shows "\<exists>temp_names w.
           phase1 E folder_path (length (random_shuffle E image_files)) 0
               (random_shuffle E image_files) []
               (emit (Progress_update 0 ''Phase 1/2: Preparing files...'') \<lparr>disk = fs, signals = []\<rparr>) =
             (Inr temp_names, w) \<and>
           mset (map fst temp_names) = mset image_files \<and>
           distinct (map fst temp_names) \<and>
           mset (map fst r) = mset image_files \<and>
           distinct (map fst r) \<and>
           length r = length image_files \<and>
           distinct (map snd r)"
proof -
  let ?xs = "random_shuffle E image_files"
  let ?w = "emit (Progress_update 0 ''Phase 1/2: Preparing files...'') \<lparr>disk = fs, signals = []\<rparr>"
  from assms(1,2) have d: "distinct ?xs"
    by (metis mset_eq_imp_distinct_iff)
  from assms(3) obtain fs1 k1 where
    r1: "rename_all (os_rename E) fs (phase1_renames E folder_path 0 ?xs) = (fs1, k1, None)"
    and r: "r = phase2_names new_prefix 1 (phase1_names E 0 ?xs []) []"
    by (auto simp: run_success)
  have "disk ?w = fs" by (simp add: emit_def)
  with r1 phase1_succeeds [of E ?w folder_path ?xs fs1 k1]
  obtain w where p1: "phase1 E folder_path (length ?xs) 0 ?xs [] ?w = (Inr (phase1_names E 0 ?xs []), w)"
    by auto
  have keys: "map fst (phase1_names E 0 ?xs []) = ?xs"
    by (rule temp_names_keys_distinct [OF d])
  have rr: "r = map (\<lambda>(j, f). (f, final_name new_prefix j f)) (enumerate 1 ?xs)"
    unfolding r by (rule final_names_distinct [OF d])
  have rk: "map fst r = ?xs"
    unfolding rr by (rule map_fst_final_names)
  have rv: "distinct (map snd r)"
    unfolding rr map_snd_final_names by (rule final_names_values_distinct)
  have len: "length r = length image_files"
    using rk assms(1) by (metis length_map size_mset)
  have m1: "mset (map fst (phase1_names E 0 ?xs [])) = mset image_files"
    by (simp only: keys assms(1))
  have d1: "distinct (map fst (phase1_names E 0 ?xs []))"
    by (simp only: keys d)
  have m2: "mset (map fst r) = mset image_files"
    by (simp only: rk assms(1))
  have d2: "distinct (map fst r)"
    by (simp only: rk d)
  from p1 m1 d1 m2 d2 len rv show ?thesis
    by blast
qed

theorem every_file_mapped_once_witness:
  "mset (random_shuffle example_env example_files) = mset example_files \<and>
   distinct example_files \<and>
   rename_result (signals (run example_env ''/d'' example_files ''x_'' example_disk)) =
     Some [(''c.gif'', ''x_001.gif''), (''b.jpg'', ''x_002.jpg''), (''a.png'', ''x_003.png'')] \<and>
   length [(''c.gif'', ''x_001.gif''), (''b.jpg'', ''x_002.jpg''), (''a.png'', ''x_003.png'')] =
     length example_files \<and>
   distinct (map snd [(''c.gif'', ''x_001.gif''), (''b.jpg'', ''x_002.jpg''), (''a.png'', ''x_003.png'')])"
proof -
  have p: "mset (random_shuffle example_env example_files) = mset example_files"
    by (simp add: example_env_def)
  have d: "distinct example_files"
    by (simp add: example_files_def)
  have s: "rename_result (signals (run example_env ''/d'' example_files ''x_'' example_disk)) =
     Some [(''c.gif'', ''x_001.gif''), (''b.jpg'', ''x_002.jpg''), (''a.png'', ''x_003.png'')]"
    by code_simp
  from every_file_mapped_once [OF p d s] p d s show ?thesis by blast
qed

subsection \<open>The second rename of phase 2 raises\<close>





subsection \<open>Rounding is monotone\<close>

lemma bit_length_bounds: "0 < n \<Longrightarrow> 2 ^ bit_length n \<le> 2 * n \<and> n < 2 ^ bit_length n"
proof (induction n rule: bit_length.induct)
  case (1 n)
  show ?case
  proof (cases "n div 2 = 0")
    case True
    with "1.prems" have n: "n = 1" by presburger
    have "bit_length 1 = 1"
      by (simp add: bit_length.simps [of 1] bit_length.simps [of 0])
    with n show ?thesis by simp
  next
    case False
    with "1.prems" have pos: "0 < n div 2" by presburger
    from "1.IH" [OF _ pos] "1.prems"
    have ih: "2 ^ bit_length (n div 2) \<le> 2 * (n div 2) \<and> n div 2 < 2 ^ bit_length (n div 2)"
      by simp
    from "1.prems" have bl: "bit_length n = Suc (bit_length (n div 2))"
      by (simp add: bit_length.simps [of n])
    from ih show ?thesis
      unfolding bl by (simp, presburger)
  qed
qed


lemma ilog2_cases:
  assumes "0 < x"
  obtains k where "ilog2 x = (if 2 powi k \<le> x then k else k - 1)"
    and "2 powi (k - 1) \<le> x" and "x < 2 powi (k + 1)"
proof -
  obtain p q where pq: "quotient_of x = (p, q)" by (cases "quotient_of x")
  have q: "0 < q" using quotient_of_denom_pos [OF pq] .
  have x: "x = of_int p / of_int q" using quotient_of_div [OF pq] .
  have p: "0 < p" using assms q x by (simp add: zero_less_divide_iff)
  define bp where "bp = bit_length p"
  define bq where "bq = bit_length q"
  define k where "k = int bp - int bq"
  from bit_length_bounds [OF p] have p1: "2 ^ bp \<le> 2 * p" and p2: "p < 2 ^ bp"
    by (simp_all add: bp_def)
  from bit_length_bounds [OF q] have q1: "2 ^ bq \<le> 2 * q" and q2: "q < 2 ^ bq"
    by (simp_all add: bq_def)
  have pk: "(2::rat) powi k = 2 ^ bp / 2 ^ bq"
    by (simp add: k_def power_int_diff)
  have pk1: "(2::rat) powi (k + 1) = 2 * 2 ^ bp / 2 ^ bq"
    by (simp add: power_int_add pk)
  have pkm: "(2::rat) powi (k - 1) = 2 ^ bp / (2 * 2 ^ bq)"
    by (simp add: power_int_diff pk)
  have "p * 2 ^ bq \<le> p * (2 * q)"
    using p q1 by (intro mult_left_mono) simp_all
  also have "\<dots> < 2 ^ bp * (2 * q)"
    using p2 q by (intro mult_strict_right_mono) simp_all
  finally have "p * 2 ^ bq < 2 * 2 ^ bp * q" by (simp add: mult_ac)
  then have "(of_int (p * 2 ^ bq) :: rat) < of_int (2 * 2 ^ bp * q)"
    by (simp only: of_int_less_iff)
  then have up: "x < 2 powi (k + 1)"
    unfolding x pk1 using q by (simp add: field_simps)
  have "2 ^ bp * q \<le> (2 * p) * q"
    using p1 q by (intro mult_right_mono) simp_all
  also have "\<dots> \<le> (2 * p) * 2 ^ bq"
    using p q2 by (intro mult_left_mono) simp_all
  finally have "2 ^ bp * q \<le> 2 * 2 ^ bq * p" by (simp add: mult_ac)
  then have "(of_int (2 ^ bp * q) :: rat) \<le> of_int (2 * 2 ^ bq * p)"
    by (simp only: of_int_le_iff)
  then have lo: "2 powi (k - 1) \<le> x"
    unfolding x pkm using q by (simp add: field_simps)
  have "ilog2 x = (if 2 powi k \<le> x then k else k - 1)"
    by (simp add: ilog2_def pq k_def bp_def bq_def)
  with lo up that show thesis by blast
qed

lemma ilog2_bounds:
  assumes "0 < x"
  shows "2 powi (ilog2 x) \<le> x \<and> x < 2 powi (ilog2 x + 1)"
proof -
  from assms obtain k where k: "ilog2 x = (if 2 powi k \<le> x then k else k - 1)"
    and lo: "2 powi (k - 1) \<le> x" and up: "x < 2 powi (k + 1)"
    by (rule ilog2_cases)
  show ?thesis
  proof (cases "2 powi k \<le> x")
    case True
    with k up show ?thesis by simp
  next
    case False
    with k lo show ?thesis by simp
  qed
qed

lemma ilog2_mono:
  assumes "0 < x" "x \<le> y"
  shows "ilog2 x \<le> ilog2 y"
proof (rule ccontr)
  assume "\<not> ilog2 x \<le> ilog2 y"
  then have "ilog2 y + 1 \<le> ilog2 x" by simp
  then have "(2::rat) powi (ilog2 y + 1) \<le> 2 powi (ilog2 x)"
    by (intro power_int_increasing) simp_all
  also have "\<dots> \<le> x" using ilog2_bounds [OF assms(1)] by simp
  also have "\<dots> \<le> y" by (rule assms(2))
  also have "\<dots> < 2 powi (ilog2 y + 1)" using ilog2_bounds [of y] assms by simp
  finally show False by simp
qed

lemma round_half_even_bounds: "\<lfloor>y\<rfloor> \<le> round_half_even y \<and> round_half_even y \<le> \<lfloor>y\<rfloor> + 1"
  by (simp add: round_half_even_def Let_def)

lemma round_half_even_of_int: "round_half_even (of_int k) = k"
  by (simp add: round_half_even_def Let_def)

lemma round_half_even_mono:
  assumes "x \<le> y"
  shows "round_half_even x \<le> round_half_even y"
proof (cases "\<lfloor>x\<rfloor> < \<lfloor>y\<rfloor>")
  case True
  with round_half_even_bounds [of x] round_half_even_bounds [of y] show ?thesis by linarith
next
  case False
  with assms have f: "\<lfloor>x\<rfloor> = \<lfloor>y\<rfloor>"
    using floor_mono [of x y] by linarith
  from assms have d: "x - of_int \<lfloor>y\<rfloor> \<le> y - of_int \<lfloor>y\<rfloor>" by simp
  show ?thesis
    using d unfolding round_half_even_def Let_def f
    by (auto split: if_splits)
qed

lemma round_half_even_le: "x \<le> of_int k \<Longrightarrow> round_half_even x \<le> k"
  using round_half_even_mono [of x "of_int k"] by (simp add: round_half_even_of_int)

lemma round_half_even_ge: "of_int k \<le> x \<Longrightarrow> k \<le> round_half_even x"
  using round_half_even_mono [of "of_int k" x] by (simp add: round_half_even_of_int)


lemma float_round_pos_eq:
  "0 < x \<Longrightarrow>
   float_round x = of_int (round_half_even (x / 2 powi (ilog2 x - 52))) * 2 powi (ilog2 x - 52)"
  by (simp add: float_round_def Let_def)

lemma float_round_ge:
  assumes "0 < x"
  shows "2 powi (ilog2 x) \<le> float_round x"
proof -
  define u :: rat where "u = 2 powi (ilog2 x - 52)"
  have u: "0 < u" by (simp add: u_def)
  have e: "(2::rat) powi (ilog2 x) = of_int (2 ^ 52) * u"
    by (simp add: u_def power_int_diff)
  from ilog2_bounds [OF assms] have "of_int (2 ^ 52) * u \<le> x" by (simp add: e)
  with u have "of_int (2 ^ 52) \<le> x / u" by (simp add: pos_le_divide_eq)
  then have "2 ^ 52 \<le> round_half_even (x / u)" by (rule round_half_even_ge)
  then have "(of_int (2 ^ 52) :: rat) \<le> of_int (round_half_even (x / u))"
    by (simp only: of_int_le_iff)
  with u have "of_int (2 ^ 52) * u \<le> of_int (round_half_even (x / u)) * u"
    by (intro mult_right_mono) simp_all
  then show ?thesis
    by (simp only: e float_round_pos_eq [OF assms] u_def)
qed

lemma float_round_le:
  assumes "0 < x"
  shows "float_round x \<le> 2 powi (ilog2 x + 1)"
proof -
  define u :: rat where "u = 2 powi (ilog2 x - 52)"
  have u: "0 < u" by (simp add: u_def)
  have e: "(2::rat) powi (ilog2 x + 1) = of_int (2 ^ 53) * u"
    by (simp add: u_def power_int_diff power_int_add)
  from ilog2_bounds [OF assms] have "x \<le> of_int (2 ^ 53) * u" by (simp add: e)
  with u have "x / u \<le> of_int (2 ^ 53)" by (simp add: pos_divide_le_eq)
  then have "round_half_even (x / u) \<le> 2 ^ 53" by (rule round_half_even_le)
  then have "(of_int (round_half_even (x / u)) :: rat) \<le> of_int (2 ^ 53)"
    by (simp only: of_int_le_iff)
  with u have "of_int (round_half_even (x / u)) * u \<le> of_int (2 ^ 53) * u"
    by (intro mult_right_mono) simp_all
  then show ?thesis
    by (simp only: e float_round_pos_eq [OF assms] u_def)
qed

lemma float_round_pos:
  assumes "0 < x"
  shows "0 < float_round x"
proof -
  have "(0::rat) < 2 powi (ilog2 x)" by simp
  also have "\<dots> \<le> float_round x" by (rule float_round_ge [OF assms])
  finally show ?thesis .
qed

lemma float_round_mono_pos:
  assumes "0 < x" "x \<le> y"
  shows "float_round x \<le> float_round y"
proof -
  from assms have y: "0 < y" by simp
  have le: "ilog2 x \<le> ilog2 y" by (rule ilog2_mono [OF assms])
  show ?thesis
  proof (cases "ilog2 x = ilog2 y")
    case True
    define u :: rat where "u = 2 powi (ilog2 y - 52)"
    have u: "0 < u" by (simp add: u_def)
    from assms(2) u have "x / u \<le> y / u" by (simp add: divide_right_mono)
    then have "round_half_even (x / u) \<le> round_half_even (y / u)"
      by (rule round_half_even_mono)
    then have "(of_int (round_half_even (x / u)) :: rat) \<le> of_int (round_half_even (y / u))"
      by (simp only: of_int_le_iff)
    with u have "of_int (round_half_even (x / u)) * u \<le> of_int (round_half_even (y / u)) * u"
      by (intro mult_right_mono) simp_all
    then show ?thesis
      by (simp only: float_round_pos_eq [OF assms(1)] float_round_pos_eq [OF y] True u_def)
  next
    case False
    with le have "ilog2 x + 1 \<le> ilog2 y" by simp
    then have "(2::rat) powi (ilog2 x + 1) \<le> 2 powi (ilog2 y)"
      by (intro power_int_increasing) simp_all
    with float_round_le [OF assms(1)] float_round_ge [OF y] show ?thesis by linarith
  qed
qed

lemma float_round_0: "float_round 0 = 0"
  by (simp add: float_round_def)

lemma float_round_mono:
  assumes "0 \<le> x" "x \<le> y"
  shows "float_round x \<le> float_round y"
proof (cases "x = 0")
  case True
  show ?thesis
  proof (cases "y = 0")
    case True
    with \<open>x = 0\<close> show ?thesis by simp
  next
    case False
    with assms have "0 < y" by simp
    from float_round_pos [OF this] \<open>x = 0\<close> show ?thesis by (simp add: float_round_0)
  qed
next
  case False
  with assms have "0 < x" by simp
  then show ?thesis using assms(2) by (rule float_round_mono_pos)
qed

lemma float_round_1: "float_round 1 = 1"
  by code_simp

lemma float_round_50: "float_round 50 = 50"
  by code_simp

subsection \<open>The percentages\<close>

lemma float_round_nonneg: "0 \<le> x \<Longrightarrow> 0 \<le> float_round x"
  using float_round_mono [of 0 x] by (simp add: float_round_0)

lemma py_int_nonneg: "0 \<le> x \<Longrightarrow> py_int x = \<lfloor>x\<rfloor>"
  by (simp add: py_int_def)

lemma pct_arg_nonneg: "0 \<le> float_mul (float_round (of_int (int k) / of_int (int n))) 50"
  unfolding float_mul_def
  by (intro float_round_nonneg mult_nonneg_nonneg) simp_all

lemma pct_nonneg: "0 \<le> pct k n"
  unfolding pct_def py_int_nonneg [OF pct_arg_nonneg] zero_le_floor
  by (rule pct_arg_nonneg)

lemma pct_mono:
  assumes "k \<le> k'"
  shows "pct k n \<le> pct k' n"
proof -
  have "(of_int (int k) :: rat) / of_int (int n) \<le> of_int (int k') / of_int (int n)"
    using assms by (intro divide_right_mono) simp_all
  then have "float_round (of_int (int k) / of_int (int n)) \<le> float_round (of_int (int k') / of_int (int n))"
    by (intro float_round_mono) simp_all
  then have "float_round (of_int (int k) / of_int (int n)) * 50
               \<le> float_round (of_int (int k') / of_int (int n)) * 50"
    by simp
  then have "float_mul (float_round (of_int (int k) / of_int (int n))) 50
               \<le> float_mul (float_round (of_int (int k') / of_int (int n))) 50"
    unfolding float_mul_def
    by (intro float_round_mono mult_nonneg_nonneg float_round_nonneg) simp_all
  then show ?thesis
    unfolding pct_def py_int_nonneg [OF pct_arg_nonneg] by (rule floor_mono)
qed

lemma pct_full: "0 < n \<Longrightarrow> pct n n = 50"
  by (simp add: pct_def float_mul_def float_round_1 float_round_50 py_int_def)

lemma pct_le_50: "0 < n \<Longrightarrow> k \<le> n \<Longrightarrow> pct k n \<le> 50"
  using pct_mono [of k n n] by (simp add: pct_full)

lemma percentages_append: "percentages (xs @ ys) = percentages xs @ percentages ys"
  by (induction xs rule: percentages.induct) simp_all

lemma percentages_map: "percentages (map (\<lambda>j. Progress_update (f j) (g j)) xs) = map f xs"
  by (induction xs) simp_all

lemma percentages_phase1: "percentages (phase1_events n i k) = map (\<lambda>j. pct (j + 1) n) [i..<i + k]"
  unfolding phase1_events_def by (rule percentages_map)

lemma percentages_phase2: "percentages (phase2_events n i k) = map (\<lambda>j. 50 + pct j n) [i..<i + k]"
  unfolding phase2_events_def by (rule percentages_map)

lemma sorted_map_upt: "(\<And>i j. i \<le> j \<Longrightarrow> f i \<le> f j) \<Longrightarrow> sorted (map f [a..<b])"
  by (induction b) (auto simp: sorted_append)

lemma phase1_percentages:
  assumes "k \<le> n"
  shows "sorted (map (\<lambda>j. pct (j + 1) n) [0..<k])"
    and "\<forall>p \<in> set (map (\<lambda>j. pct (j + 1) n) [0..<k]). 0 \<le> p \<and> p \<le> 50"
proof -
  show "sorted (map (\<lambda>j. pct (j + 1) n) [0..<k])"
    by (rule sorted_map_upt) (simp add: pct_mono)
  show "\<forall>p \<in> set (map (\<lambda>j. pct (j + 1) n) [0..<k]). 0 \<le> p \<and> p \<le> 50"
  proof
    fix p
    assume "p \<in> set (map (\<lambda>j. pct (j + 1) n) [0..<k])"
    then obtain j where j: "j < k" and p: "p = pct (j + 1) n" by auto
    from j assms have "0 < n" "j + 1 \<le> n" by simp_all
    then have "pct (j + 1) n \<le> 50" by (rule pct_le_50)
    with p show "0 \<le> p \<and> p \<le> 50" by (simp add: pct_nonneg)
  qed
qed

lemma phase2_percentages:
  assumes "k \<le> n"
  shows "sorted (map (\<lambda>j. 50 + pct j n) [1..<1 + k])"
    and "\<forall>p \<in> set (map (\<lambda>j. 50 + pct j n) [1..<1 + k]). 50 \<le> p \<and> p \<le> 100"
proof -
  show "sorted (map (\<lambda>j. 50 + pct j n) [1..<1 + k])"
    by (rule sorted_map_upt) (simp add: pct_mono)
  show "\<forall>p \<in> set (map (\<lambda>j. 50 + pct j n) [1..<1 + k]). 50 \<le> p \<and> p \<le> 100"
  proof
    fix p
    assume "p \<in> set (map (\<lambda>j. 50 + pct j n) [1..<1 + k])"
    then obtain j where j: "1 \<le> j" "j \<le> k" and p: "p = 50 + pct j n" by auto
    from j assms have "0 < n" "j \<le> n" by simp_all
    then have "pct j n \<le> 50" by (rule pct_le_50)
    with p show "50 \<le> p \<and> p \<le> 100" using pct_nonneg [of j n] by simp
  qed
qed

lemma percent_sequence1:
  assumes "k1 \<le> n"
  shows "sorted (0 # map (\<lambda>j. pct (j + 1) n) [0..<k1]) \<and>
         list_all (\<lambda>p. 0 \<le> p \<and> p \<le> 100) (0 # map (\<lambda>j. pct (j + 1) n) [0..<k1])"
  using phase1_percentages [OF assms]
  by (fastforce simp: list_all_iff)

lemma percent_sequence2:
  assumes "k1 \<le> n" "k2 \<le> n"
  shows "sorted (0 # map (\<lambda>j. pct (j + 1) n) [0..<k1] @ 50 # map (\<lambda>j. 50 + pct j n) [1..<1 + k2]) \<and>
         list_all (\<lambda>p. 0 \<le> p \<and> p \<le> 100)
           (0 # map (\<lambda>j. pct (j + 1) n) [0..<k1] @ 50 # map (\<lambda>j. 50 + pct j n) [1..<1 + k2])"
proof -
  note a = phase1_percentages [OF assms(1)]
  note b = phase2_percentages [OF assms(2)]
  have s: "sorted (0 # map (\<lambda>j. pct (j + 1) n) [0..<k1] @ 50 # map (\<lambda>j. 50 + pct j n) [1..<1 + k2])"
    unfolding sorted_simps sorted_append
    using a b by (fastforce simp del: upt_Suc map_eq_conv)
  have r: "list_all (\<lambda>p. 0 \<le> p \<and> p \<le> 100)
           (0 # map (\<lambda>j. pct (j + 1) n) [0..<k1] @ 50 # map (\<lambda>j. 50 + pct j n) [1..<1 + k2])"
    unfolding list_all_iff
    using a(2) b(2) by (fastforce simp del: upt_Suc)
  from s r show ?thesis ..
qed

lemma last_phase2_percentages:
  "0 < n \<Longrightarrow> last (xs @ 50 # map (\<lambda>j. 50 + pct j n) [1..<1 + n]) = 100"
proof -
  assume n: "0 < n"
  then have ne: "[1..<1 + n] \<noteq> []" by simp
  from n have "last [1..<1 + n] = n" by (simp del: upt_Suc)
  with ne have "last (map (\<lambda>j. 50 + pct j n) [1..<1 + n]) = 50 + pct n n"
    by (simp add: last_map del: upt_Suc)
  with ne n show ?thesis
    by (simp add: pct_full del: upt_Suc)
qed

text \<open>
  C3: in every run the percentages of the progress signals, in the order of emission,
  never decrease and lie between 0 and 100; and when the run succeeds on a non-empty list
  of different file names (which the shuffle permutes), the last of them is 100. The
  percentages are those of the float arithmetic \<^verbatim>\<open>int(k / total_files * 50)\<close>, which is
  not always the rounded-down exact quotient (\<open>pct 29 50 = 28\<close>).
\<close>

theorem progress_percentages:
  "sorted (percentages (signals (run E folder_path image_files new_prefix fs))) \<and>
   list_all (\<lambda>p. 0 \<le> p \<and> p \<le> 100)
     (percentages (signals (run E folder_path image_files new_prefix fs))) \<and>
   (mset (random_shuffle E image_files) = mset image_files \<and> distinct image_files \<and>
    image_files \<noteq> [] \<and>
    rename_result (signals (run E folder_path image_files new_prefix fs)) \<noteq> None \<longrightarrow>
    last (percentages (signals (run E folder_path image_files new_prefix fs))) = 100)"
proof (cases rule: run_cases [where E = E and fs = fs and folder_path = folder_path
      and image_files = image_files and new_prefix = new_prefix])
  case (phase1_failed fs1 k1 e)
  let ?n = "length (random_shuffle E image_files)"
  from phase1_failed(2) have k: "k1 \<le> ?n" by simp
  have p: "percentages (signals (run E folder_path image_files new_prefix fs)) =
      0 # map (\<lambda>j. pct (j + 1) ?n) [0..<k1]"
    by (simp add: phase1_failed(3) percentages_append percentages_phase1)
  have "rename_result (signals (run E folder_path image_files new_prefix fs)) = None"
    by (simp add: phase1_failed(3) rename_result_Error)
  with percent_sequence1 [OF k] show ?thesis
    unfolding p by simp
next
  case (phase2_failed fs1 fs2 k2 e)
  let ?n = "length (random_shuffle E image_files)"
  from phase2_failed(3) length_phase1_names [of E 0 "random_shuffle E image_files" "[]"]
  have k: "k2 \<le> ?n" by simp
  have p: "percentages (signals (run E folder_path image_files new_prefix fs)) =
      0 # map (\<lambda>j. pct (j + 1) ?n) [0..<?n] @ 50 # map (\<lambda>j. 50 + pct j ?n) [1..<1 + k2]"
    by (simp add: phase2_failed(4) percentages_append percentages_phase1 percentages_phase2
        del: upt_Suc)
  have "rename_result (signals (run E folder_path image_files new_prefix fs)) = None"
    by (simp add: phase2_failed(4) rename_result_Error2)
  with percent_sequence2 [OF order_refl k] show ?thesis
    unfolding p by simp
next
  case (succeeded fs1 fs2)
  let ?xs = "random_shuffle E image_files"
  let ?n = "length ?xs"
  let ?m = "length (phase1_names E 0 ?xs [])"
  from length_phase1_names [of E 0 ?xs "[]"] have k: "?m \<le> ?n" by simp
  have p: "percentages (signals (run E folder_path image_files new_prefix fs)) =
      0 # map (\<lambda>j. pct (j + 1) ?n) [0..<?n] @ 50 # map (\<lambda>j. 50 + pct j ?n) [1..<1 + ?m]"
    by (simp add: succeeded(3) percentages_append percentages_phase1 percentages_phase2
        del: upt_Suc)
  have l: "last (percentages (signals (run E folder_path image_files new_prefix fs))) = 100"
    if h: "mset ?xs = mset image_files" "distinct image_files" "image_files \<noteq> []"
  proof -
    from h(1,2) have d: "distinct ?xs" by (metis mset_eq_imp_distinct_iff)
    from h(1,3) have n: "0 < ?n" by (metis length_greater_0_conv mset_zero_iff)
    from temp_names_keys_distinct [OF d, of E] have m: "?m = ?n" by (metis length_map)
    show ?thesis
      unfolding p m using last_phase2_percentages [OF n, of "0 # map (\<lambda>j. pct (j + 1) ?n) [0..<?n]"]
      by simp
  qed
  from percent_sequence2 [OF order_refl k] l show ?thesis
    unfolding p by blast
qed

theorem progress_percentages_witness:
  "mset (random_shuffle example_env example_files) = mset example_files \<and>
   distinct example_files \<and> example_files \<noteq> [] \<and>
   rename_result (signals (run example_env ''/d'' example_files ''x_'' example_disk)) \<noteq> None \<and>
   sorted (percentages (signals (run example_env ''/d'' example_files ''x_'' example_disk))) \<and>
   last (percentages (signals (run example_env ''/d'' example_files ''x_'' example_disk))) = 100 \<and>
   percentages (signals (run example_env ''/d'' example_files ''x_'' example_disk)) =
     [0, 16, 33, 50, 50, 66, 83, 100]"
proof -
  have p: "mset (random_shuffle example_env example_files) = mset example_files"
    by (simp add: example_env_def)
  have d: "distinct example_files" "example_files \<noteq> []"
    by (simp_all add: example_files_def)
  have s: "rename_result (signals (run example_env ''/d'' example_files ''x_'' example_disk)) \<noteq> None"
    by code_simp
  have v: "percentages (signals (run example_env ''/d'' example_files ''x_'' example_disk)) =
     [0, 16, 33, 50, 50, 66, 83, 100]"
    by code_simp
  note t = progress_percentages [of example_env "''/d''" example_files "''x_''" example_disk]
  from t p d s have "sorted (percentages (signals (run example_env ''/d'' example_files ''x_'' example_disk)))"
    and "last (percentages (signals (run example_env ''/d'' example_files ''x_'' example_disk))) = 100"
    by blast+
  with p d s v show ?thesis by blast
qed

lemma pct_29_50: "pct 29 50 = 28"
  by code_simp

subsection \<open>Every file gets its final name\<close>

lemma moves_all:
  fixes fs :: "string \<Rightarrow> 'n option"
  assumes "moves_entry r"
    and "length srcs = length dsts"
    and "distinct srcs" "distinct dsts" "set srcs \<inter> set dsts = {}"
    and "rename_all r fs (zip srcs dsts) = (fs', k, None)"
  shows "(\<forall>i < length srcs. fs (srcs ! i) \<noteq> None \<and> fs' (dsts ! i) = fs (srcs ! i) \<and>
            fs' (srcs ! i) = None) \<and>
         (\<forall>p. p \<notin> set srcs \<and> p \<notin> set dsts \<longrightarrow> fs' p = fs p)"
  using assms(2-)
proof (induction srcs dsts arbitrary: fs k rule: list_induct2)
  case Nil
  then show ?case by simp
next
  case (Cons s srcs d dsts)
  from Cons.prems(4) obtain fsa k' where a: "r fs s d = Inr fsa"
    and rest: "rename_all r fsa (zip srcs dsts) = (fs', k', None)"
    by (auto split: sum.splits prod.splits)
  from moves_entryD [OF assms(1) a] have s: "fs s \<noteq> None" and fsa: "fsa = (fs(s := None))(d := fs s)"
    by simp_all
  from Cons.prems have d1: "distinct srcs" "distinct dsts" "set srcs \<inter> set dsts = {}"
    and fresh: "s \<notin> set srcs" "d \<notin> set dsts" "s \<notin> set dsts" "d \<notin> set srcs" "s \<noteq> d"
    by auto
  note ih = Cons.IH [OF d1 rest]
  from ih have ih1: "fsa (srcs ! i) \<noteq> None \<and> fs' (dsts ! i) = fsa (srcs ! i) \<and> fs' (srcs ! i) = None"
    if "i < length srcs" for i using that by blast
  from ih have ih2: "fs' p = fsa p" if "p \<notin> set srcs" "p \<notin> set dsts" for p
    using that by blast
  have tail: "fs (srcs ! i) \<noteq> None \<and> fs' (dsts ! i) = fs (srcs ! i) \<and> fs' (srcs ! i) = None"
    if "i < length srcs" for i
  proof -
    from that have "srcs ! i \<in> set srcs" by simp
    with fresh have "srcs ! i \<noteq> s" "srcs ! i \<noteq> d" by auto
    then have "fsa (srcs ! i) = fs (srcs ! i)" by (simp add: fsa)
    with ih1 [OF that] show ?thesis by simp
  qed
  have head: "fs' d = fs s" "fs' s = None"
  proof -
    from ih2 fresh have "fs' d = fsa d" "fs' s = fsa s" by simp_all
    with fresh show "fs' d = fs s" "fs' s = None" by (simp_all add: fsa)
  qed
  have other: "fs' p = fs p" if "p \<notin> set (s # srcs) \<and> p \<notin> set (d # dsts)" for p
  proof -
    from that ih2 have "fs' p = fsa p" by simp
    with that show ?thesis by (simp add: fsa)
  qed
  show ?case
  proof (intro conjI allI impI)
    fix i
    assume i: "i < length (s # srcs)"
    show "fs ((s # srcs) ! i) \<noteq> None" using i s tail by (cases i) simp_all
    show "fs' ((d # dsts) ! i) = fs ((s # srcs) ! i)" using i head tail by (cases i) simp_all
    show "fs' ((s # srcs) ! i) = None" using i head tail by (cases i) simp_all
  next
    fix p
    assume "p \<notin> set (s # srcs) \<and> p \<notin> set (d # dsts)"
    then show "fs' p = fs p" by (rule other)
  qed
qed
lemma phase1_renames_nth:
  "k < length xs \<Longrightarrow>
   phase1_renames E folder_path i xs ! k =
     (os_path_join folder_path (xs ! k), os_path_join folder_path (temp_name E (i + k) (xs ! k)))"
proof (induction xs arbitrary: i k)
  case Nil
  then show ?case by simp
next
  case (Cons x xs)
  show ?case
  proof (cases k)
    case 0
    then show ?thesis by simp
  next
    case (Suc k')
    with Cons.prems have "k' < length xs" by simp
    from Cons.IH [OF this, of "i + 1"] show ?thesis by (simp add: Suc)
  qed
qed

lemma phase2_renames_nth:
  "k < length items \<Longrightarrow>
   phase2_renames folder_path new_prefix i items ! k =
     (os_path_join folder_path (snd (items ! k)),
      os_path_join folder_path (final_name new_prefix (i + k) (fst (items ! k))))"
proof (induction items arbitrary: i k)
  case Nil
  then show ?case by simp
next
  case (Cons it items)
  obtain f t where it: "it = (f, t)" by (cases it)
  show ?case
  proof (cases k)
    case 0
    then show ?thesis by (simp add: it)
  next
    case (Suc k')
    with Cons.prems have "k' < length items" by simp
    from Cons.IH [OF this, of "i + 1"] show ?thesis by (simp add: Suc it)
  qed
qed

lemma phase1_renames_upt:
  "phase1_renames E folder_path 0 xs =
     map (\<lambda>i. (os_path_join folder_path (xs ! (i - 1)),
               os_path_join folder_path (temp_name E (i - 1) (xs ! (i - 1)))))
       [1..<Suc (length xs)]"
  by (rule nth_equalityI)
    (simp_all add: length_phase1_renames phase1_renames_nth del: upt_Suc)

lemma phase2_renames_upt:
  assumes "distinct xs"
  shows "phase2_renames folder_path new_prefix 1 (phase1_names E 0 xs []) =
     map (\<lambda>i. (os_path_join folder_path (temp_name E (i - 1) (xs ! (i - 1))),
               os_path_join folder_path (final_name new_prefix i (xs ! (i - 1)))))
       [1..<Suc (length xs)]"
proof -
  have items: "phase1_names E 0 xs [] = map (\<lambda>(j, f). (f, temp_name E j f)) (enumerate 0 xs)"
    by (rule temp_names_distinct [OF assms])
  show ?thesis
    unfolding items
    by (rule nth_equalityI)
      (simp_all add: length_phase2_renames phase2_renames_nth nth_enumerate_eq del: upt_Suc)
qed

text \<open>
  C1: when \<^verbatim>\<open>run\<close> succeeds on a list of \<open>N\<close> different file names (which the shuffle
  permutes), then for the file at position \<open>i\<close> of the shuffled list (\<open>i\<close> from 1 to \<open>N\<close>):
  the mapping handed over lists the files in that order, each with the name prefix, then
  \<open>i\<close> in the format \<^verbatim>\<open>03d\<close>, then the extension of its original name; the renames carried
  out on the file system are exactly, in this order, those of every file to its temporary
  name and then those of every temporary name to that final name, all \<open>2 N\<close> of them, and
  the file system \<^verbatim>\<open>run\<close> leaves is their result; and, with a rename that moves entries
  and temporary paths that collide with nothing, the entry that the original path of file
  \<open>i\<close> named before the run is named by its final path after it, and its temporary path
  names nothing. The numbers used are \<open>1, \<dots>, N\<close>, each once.
\<close>

theorem final_names_numbered:
  fixes E :: "(string \<Rightarrow> 'n option) env" and folder_path new_prefix :: string
    and image_files :: "string list"
  defines "file \<equiv> (\<lambda>i. random_shuffle E image_files ! (i - 1))"
    and "idx \<equiv> [1..<Suc (length image_files)]"
  defines "orig \<equiv> (\<lambda>i. os_path_join folder_path (file i))"
    and "temp \<equiv> (\<lambda>i. os_path_join folder_path
                    (''temp_'' @ uuid4 E (i - 1) @ snd (splitext (file i))))"
    and "final \<equiv> (\<lambda>i. os_path_join folder_path
                     (new_prefix @ format_03d i @ snd (splitext (file i))))"
  assumes "mset (random_shuffle E image_files) = mset image_files"
    and "distinct image_files"
    and "rename_result (signals (run E folder_path image_files new_prefix fs)) = Some r"
  shows "r = map (\<lambda>i. (file i, new_prefix @ format_03d i @ snd (splitext (file i)))) idx \<and>
         rename_all (os_rename E) fs
             (map (\<lambda>i. (orig i, temp i)) idx @ map (\<lambda>i. (temp i, final i)) idx) =
           (disk (run E folder_path image_files new_prefix fs), 2 * length image_files, None) \<and>
         (moves_entry (os_rename E) \<and> distinct (map orig idx) \<and> distinct (map temp idx) \<and>
          distinct (map final idx) \<and>
          set (map temp idx) \<inter> (set (map orig idx) \<union> set (map final idx)) = {} \<longrightarrow>
          (\<forall>i \<in> set idx.
             fs (orig i) \<noteq> None \<and>
             disk (run E folder_path image_files new_prefix fs) (final i) = fs (orig i) \<and>
             disk (run E folder_path image_files new_prefix fs) (temp i) = None))"
proof -
  let ?xs = "random_shuffle E image_files"
  let ?d = "phase1_names E 0 ?xs []"
  let ?run = "run E folder_path image_files new_prefix fs"
  from assms(6,7) have d: "distinct ?xs"
    by (metis mset_eq_imp_distinct_iff)
  from assms(6) have len: "length ?xs = length image_files"
    by (metis size_mset)
  have m: "length ?d = length image_files"
    using temp_names_keys_distinct [OF d, of E] len by (metis length_map)
  have p1: "phase1_renames E folder_path 0 ?xs = map (\<lambda>i. (orig i, temp i)) idx"
    unfolding phase1_renames_upt orig_def temp_def file_def idx_def temp_name_def len ..
  have p2: "phase2_renames folder_path new_prefix 1 ?d = map (\<lambda>i. (temp i, final i)) idx"
    unfolding phase2_renames_upt [OF d] orig_def temp_def final_def file_def idx_def
      temp_name_def final_name_def len ..
  have r: "r = map (\<lambda>i. (file i, new_prefix @ format_03d i @ snd (splitext (file i)))) idx"
  proof -
    from assms(8) have "r = phase2_names new_prefix 1 ?d []"
      by (auto simp: run_success)
    also have "\<dots> = map (\<lambda>(j, f). (f, final_name new_prefix j f)) (enumerate 1 ?xs)"
      by (rule final_names_distinct [OF d])
    also have "\<dots> = map (\<lambda>i. (?xs ! (i - 1), final_name new_prefix i (?xs ! (i - 1))))
        [1..<Suc (length ?xs)]"
      by (rule map_enumerate_upt)
    finally show ?thesis
      by (simp add: final_name_def len file_def idx_def del: upt_Suc)
  qed
  obtain fs1 fs2 where
    r1: "rename_all (os_rename E) fs (map (\<lambda>i. (orig i, temp i)) idx) =
           (fs1, length image_files, None)"
    and r2: "rename_all (os_rename E) fs1 (map (\<lambda>i. (temp i, final i)) idx) =
           (fs2, length image_files, None)"
    and dk: "disk ?run = fs2"
  proof (cases rule: run_cases [where E = E and fs = fs and folder_path = folder_path
        and image_files = image_files and new_prefix = new_prefix])
    case (phase1_failed fs1 k1 e)
    with assms(8) show ?thesis by (simp add: rename_result_Error)
  next
    case (phase2_failed fs1 fs2 k2 e)
    with assms(8) show ?thesis by (simp add: rename_result_Error2)
  next
    case (succeeded fs1 fs2)
    from succeeded(1) have "rename_all (os_rename E) fs (map (\<lambda>i. (orig i, temp i)) idx) =
           (fs1, length image_files, None)"
      by (simp only: p1 len)
    moreover from succeeded(2) have
      "rename_all (os_rename E) fs1 (map (\<lambda>i. (temp i, final i)) idx) =
           (fs2, length image_files, None)"
      by (simp only: p2 m)
    moreover from succeeded(3) have "disk ?run = fs2" by simp
    ultimately show ?thesis by (rule that)
  qed
  have all: "rename_all (os_rename E) fs
             (map (\<lambda>i. (orig i, temp i)) idx @ map (\<lambda>i. (temp i, final i)) idx) =
           (disk ?run, 2 * length image_files, None)"
    by (simp add: rename_all_append r1 r2 dk)
  have moved: "fs (orig i) \<noteq> None \<and> disk ?run (final i) = fs (orig i) \<and> disk ?run (temp i) = None"
    if mv: "moves_entry (os_rename E)"
      and d1: "distinct (map orig idx)" and d2: "distinct (map temp idx)"
      and d3: "distinct (map final idx)"
      and fresh: "set (map temp idx) \<inter> (set (map orig idx) \<union> set (map final idx)) = {}"
      and i: "i \<in> set idx" for i
  proof -
    from i obtain k where k: "k < length idx" and ik: "idx ! k = i"
      by (auto simp: in_set_conv_nth)
    have z1: "map (\<lambda>i. (orig i, temp i)) idx = zip (map orig idx) (map temp idx)"
      by (simp add: zip_map_map zip_same_conv_map)
    have z2: "map (\<lambda>i. (temp i, final i)) idx = zip (map temp idx) (map final idx)"
      by (simp add: zip_map_map zip_same_conv_map)
    from fresh have f1: "set (map orig idx) \<inter> set (map temp idx) = {}"
      and f2: "set (map temp idx) \<inter> set (map final idx) = {}"
      by blast+
    have l1: "length (map orig idx) = length (map temp idx)"
      and l2: "length (map temp idx) = length (map final idx)"
      by simp_all
    note a = moves_all [OF mv l1 d1 d2 f1 r1 [unfolded z1]]
    note b = moves_all [OF mv l2 d2 d3 f2 r2 [unfolded z2]]
    from a k have a1: "fs (map orig idx ! k) \<noteq> None"
      and a2: "fs1 (map temp idx ! k) = fs (map orig idx ! k)"
      by simp_all
    from b k have b1: "fs2 (map final idx ! k) = fs1 (map temp idx ! k)"
      and b2: "fs2 (map temp idx ! k) = None"
      by simp_all
    from a1 a2 b1 b2 k ik show ?thesis
      by (simp add: dk)
  qed
  from r all moved show ?thesis by blast
qed

theorem final_names_numbered_witness:
  "mset (random_shuffle example_env example_files) = mset example_files \<and>
   distinct example_files \<and>
   rename_result (signals (run example_env ''/d'' example_files ''x_'' example_disk)) =
     Some [(''c.gif'', ''x_001.gif''), (''b.jpg'', ''x_002.jpg''), (''a.png'', ''x_003.png'')] \<and>
   moves_entry (os_rename example_env) \<and>
   [(''c.gif'', ''x_001.gif''), (''b.jpg'', ''x_002.jpg''), (''a.png'', ''x_003.png'')] =
     map (\<lambda>i. (random_shuffle example_env example_files ! (i - 1),
               ''x_'' @ format_03d i @
                 snd (splitext (random_shuffle example_env example_files ! (i - 1)))))
       [1..<Suc (length example_files)] \<and>
   example_disk (os_path_join ''/d'' ''c.gif'') \<noteq> None \<and>
   disk (run example_env ''/d'' example_files ''x_'' example_disk)
       (os_path_join ''/d'' (''x_'' @ format_03d 1 @ snd (splitext ''c.gif''))) =
     example_disk (os_path_join ''/d'' ''c.gif'') \<and>
   disk (run example_env ''/d'' example_files ''x_'' example_disk)
       (os_path_join ''/d'' (''temp_'' @ uuid4 example_env (1 - 1) @ snd (splitext ''c.gif''))) = None \<and>
   map (disk (run example_env ''/d'' example_files ''x_'' example_disk))
       [''/d/x_001.gif'', ''/d/x_002.jpg'', ''/d/x_003.png''] =
     [Some (File 3), Some (File 2), Some (File 1)]"
proof -
  have p: "mset (random_shuffle example_env example_files) = mset example_files"
    by (simp add: example_env_def)
  have d: "distinct example_files"
    by (simp add: example_files_def)
  have s: "rename_result (signals (run example_env ''/d'' example_files ''x_'' example_disk)) =
     Some [(''c.gif'', ''x_001.gif''), (''b.jpg'', ''x_002.jpg''), (''a.png'', ''x_003.png'')]"
    by code_simp
  have mv: "moves_entry (os_rename example_env)"
    by (simp add: example_env_def moves_entry_example)
  have d1: "distinct (map (\<lambda>i. os_path_join ''/d'' (random_shuffle example_env example_files ! (i - 1)))
      [1..<Suc (length example_files)])"
    by code_simp
  have d2: "distinct (map (\<lambda>i. os_path_join ''/d''
        (''temp_'' @ uuid4 example_env (i - 1) @
           snd (splitext (random_shuffle example_env example_files ! (i - 1)))))
      [1..<Suc (length example_files)])"
    by code_simp
  have d3: "distinct (map (\<lambda>i. os_path_join ''/d''
        (''x_'' @ format_03d i @ snd (splitext (random_shuffle example_env example_files ! (i - 1)))))
      [1..<Suc (length example_files)])"
    by code_simp
  have fr: "set (map (\<lambda>i. os_path_join ''/d''
        (''temp_'' @ uuid4 example_env (i - 1) @
           snd (splitext (random_shuffle example_env example_files ! (i - 1)))))
      [1..<Suc (length example_files)]) \<inter>
    (set (map (\<lambda>i. os_path_join ''/d'' (random_shuffle example_env example_files ! (i - 1)))
      [1..<Suc (length example_files)]) \<union>
     set (map (\<lambda>i. os_path_join ''/d''
        (''x_'' @ format_03d i @ snd (splitext (random_shuffle example_env example_files ! (i - 1)))))
      [1..<Suc (length example_files)])) = {}"
    by code_simp
  have i1: "1 \<in> set [1..<Suc (length example_files)]"
    by (simp add: example_files_def)
  have e: "random_shuffle example_env example_files ! (1 - 1) = ''c.gif''"
    by (simp add: example_env_def example_files_def)
  have v: "map (disk (run example_env ''/d'' example_files ''x_'' example_disk))
       [''/d/x_001.gif'', ''/d/x_002.jpg'', ''/d/x_003.png''] =
     [Some (File 3), Some (File 2), Some (File 1)]"
    by code_simp
  note t = final_names_numbered [OF p d s]
  from t have t1: "[(''c.gif'', ''x_001.gif''), (''b.jpg'', ''x_002.jpg''), (''a.png'', ''x_003.png'')] =
     map (\<lambda>i. (random_shuffle example_env example_files ! (i - 1),
               ''x_'' @ format_03d i @
                 snd (splitext (random_shuffle example_env example_files ! (i - 1)))))
       [1..<Suc (length example_files)]"
    by (rule conjunct1)
  from t mv d1 d2 d3 fr i1
  have "example_disk (os_path_join ''/d'' (random_shuffle example_env example_files ! (1 - 1))) \<noteq> None \<and>
    disk (run example_env ''/d'' example_files ''x_'' example_disk)
       (os_path_join ''/d'' (''x_'' @ format_03d 1 @
          snd (splitext (random_shuffle example_env example_files ! (1 - 1))))) =
     example_disk (os_path_join ''/d'' (random_shuffle example_env example_files ! (1 - 1))) \<and>
    disk (run example_env ''/d'' example_files ''x_'' example_disk)
       (os_path_join ''/d'' (''temp_'' @ uuid4 example_env (1 - 1) @
          snd (splitext (random_shuffle example_env example_files ! (1 - 1))))) = None"
    by blast
  then have t3: "example_disk (os_path_join ''/d'' ''c.gif'') \<noteq> None \<and>
    disk (run example_env ''/d'' example_files ''x_'' example_disk)
       (os_path_join ''/d'' (''x_'' @ format_03d 1 @ snd (splitext ''c.gif''))) =
     example_disk (os_path_join ''/d'' ''c.gif'') \<and>
    disk (run example_env ''/d'' example_files ''x_'' example_disk)
       (os_path_join ''/d'' (''temp_'' @ uuid4 example_env (1 - 1) @ snd (splitext ''c.gif''))) = None"
    unfolding e .
  from p d s mv t1 t3 v show ?thesis
    by (intro conjI) (elim conjE, assumption)+
qed

end
